theory Spec2Isabelle
  imports Complex_Main "HOL-Library.Word" "HOL-Library.AList"
begin

unbundle bit_operations_syntax

section \<open>JavaScript integers and bytes\<close>

text \<open>
  The driver computes on JavaScript numbers. The bitwise operators first convert each
  operand to a signed 32-bit integer (ToInt32) and work on that; \<open>Buffer.from\<close> and a
  store into a \<open>Buffer\<close> cell keep the low 8 bits. Numbers that are integers are
  modelled as \<open>int\<close>, buffer cells as \<open>8 word\<close>.
\<close>

definition ToInt32 :: "int \<Rightarrow> int" where
  "ToInt32 x = signed_take_bit 31 x"

text \<open>\<open>a ^ b\<close>\<close>
definition js_xor :: "int \<Rightarrow> int \<Rightarrow> int" where
  "js_xor a b = ToInt32 a XOR ToInt32 b"

text \<open>\<open>a & b\<close>\<close>
definition js_and :: "int \<Rightarrow> int \<Rightarrow> int" where
  "js_and a b = ToInt32 a AND ToInt32 b"

text \<open>\<open>a >> n\<close>: sign-propagating shift, the count taken modulo 32.\<close>
definition js_shr :: "int \<Rightarrow> int \<Rightarrow> int" where
  "js_shr a n = drop_bit (nat (n mod 32)) (ToInt32 a)"

definition is_byte :: "int \<Rightarrow> bool" where
  "is_byte x \<longleftrightarrow> 0 \<le> x \<and> x \<le> 255"

text \<open>\<open>Buffer.from([...])\<close> on an array of integers.\<close>
definition Buffer_from :: "int list \<Rightarrow> 8 word list" where
  "Buffer_from xs = map word_of_int xs"

section \<open>Command encoding\<close>

text \<open>
  \<^verbatim>\<open>
  const CMD = { READ_RAM: 0x14, READ_EEPROM: 0x48, WRITE_RAM: 0x98,
                WRITE_EEPROM: 0xCA, LOOPBACK: 0xB7, BUTTON: 0x57 };

  _buildCommand(cmd, addr, data = 0x00) {
    const check = cmd ^ addr ^ data ^ 0xFF;
    return Buffer.from([cmd, addr, data, check]);
  }
  \<close>
  \<open>buildCommand\<close> of pli-driver.js and \<open>_buildCommand\<close> of the complete driver have the
  same body.
\<close>

definition CMD_READ_RAM :: int where "CMD_READ_RAM = 0x14"
definition CMD_READ_EEPROM :: int where "CMD_READ_EEPROM = 0x48"
definition CMD_WRITE_RAM :: int where "CMD_WRITE_RAM = 0x98"
definition CMD_WRITE_EEPROM :: int where "CMD_WRITE_EEPROM = 0xCA"
definition CMD_LOOPBACK :: int where "CMD_LOOPBACK = 0xB7"
definition CMD_BUTTON :: int where "CMD_BUTTON = 0x57"

definition buildCommand :: "int \<Rightarrow> int \<Rightarrow> int \<Rightarrow> 8 word list" where
  "buildCommand cmd addr data =
     (let check = js_xor (js_xor (js_xor cmd addr) data) 0xFF
      in Buffer_from [cmd, addr, data, check])"

section \<open>History log\<close>

text \<open>
  From \<open>readHistory\<close> in docs/COMMUNICATION_PROTOCOL.md:
  \<^verbatim>\<open>
  const baseOffset = 0x2E + (7 * pointer);
  for (let day = 1; day <= 30; day++) {
    let offset = baseOffset - (7 * (day - 1));
    if (offset < 0x2E) {
      offset = baseOffset + 0xD2 - (7 * (day - 1));
    }
    const dayData = await readBytes(port, offset, 7);
    history.push(parseDayRecord(dayData));
  }
  \<close>
\<close>

definition logStart :: int where "logStart = 0x2E"

definition ringSize :: int where "ringSize = 0xD2"

definition baseOffset :: "int \<Rightarrow> int" where
  "baseOffset pointer = logStart + 7 * pointer"

definition historyOffset :: "int \<Rightarrow> int \<Rightarrow> int" where
  "historyOffset pointer day =
     (let offset = baseOffset pointer - 7 * (day - 1)
      in if offset < logStart then baseOffset pointer + ringSize - 7 * (day - 1)
         else offset)"

text \<open>The offsets the loop visits, day 1 to day 30 in order.\<close>
definition historyOffsets :: "int \<Rightarrow> int list" where
  "historyOffsets pointer = map (historyOffset pointer) [1..30]"

text \<open>
  \<^verbatim>\<open>
  const parseDayRecord = (data) => {
    const chargeAh = data[4] + ((data[6] & 0x0F) * 256);
    const loadAh = data[5] + (((data[6] & 0xF0) >> 4) * 256);
    return { vmax: data[0] * 0.1 * systemVoltageRatio,
             vmin: data[1] * 0.1 * systemVoltageRatio,
             floatHours: data[2] * 0.1,
             soc: data[3], chargeAh: chargeAh, loadAh: loadAh };
  };
  \<close>
  \<open>vmax\<close>, \<open>vmin\<close> and \<open>floatHours\<close> are products of IEEE doubles in the source; the
  record holds the exact products, and nothing below depends on them. In a record of
  six bytes \<open>data[6]\<close> is \<open>undefined\<close>, which \<open>&\<close> converts to 0, so both nibble terms
  are 0. In a shorter record a field of the result is \<open>NaN\<close> or \<open>undefined\<close> in the
  source: such a record is \<open>None\<close> here.
\<close>

record DayRecord =
  vmax :: real
  vmin :: real
  floatHours :: real
  soc :: int
  chargeAh :: int
  loadAh :: int

fun parseDayRecord :: "real \<Rightarrow> int list \<Rightarrow> DayRecord option" where
  "parseDayRecord systemVoltageRatio (d0 # d1 # d2 # d3 # d4 # d5 # d6 # rest) =
     Some \<lparr> vmax = of_int d0 * (1 / 10) * systemVoltageRatio,
            vmin = of_int d1 * (1 / 10) * systemVoltageRatio,
            floatHours = of_int d2 * (1 / 10),
            soc = d3,
            chargeAh = d4 + js_and d6 0x0F * 256,
            loadAh = d5 + js_shr (js_and d6 0xF0) 4 * 256 \<rparr>"
| "parseDayRecord systemVoltageRatio [d0, d1, d2, d3, d4, d5] =
     Some \<lparr> vmax = of_int d0 * (1 / 10) * systemVoltageRatio,
            vmin = of_int d1 * (1 / 10) * systemVoltageRatio,
            floatHours = of_int d2 * (1 / 10),
            soc = d3,
            chargeAh = d4 + 0 * 256,
            loadAh = d5 + 0 * 256 \<rparr>"
| "parseDayRecord systemVoltageRatio data = None"

section \<open>Semantic accessors\<close>

text \<open>
  Each accessor awaits \<open>this.read(ADDR...)\<close> and post-processes the raw byte; the
  functions below are that post-processing, applied to the raw value. From pli-driver.js:
  \<^verbatim>\<open>
  async readBatteryVoltage() {
    const raw = await this.read(ADDR.BATTERY_VOLTAGE);
    // TODO: Detect system voltage from settings
    const systemVoltage = 12;  // Default 12V, could be 24V or 48V
    return raw * (systemVoltage / 12);
  }
  async readBatteryTemp()   { ... return raw - 100; }
  async readSOC()           { ... return raw; }
  async readSolarVoltage()  { ... return raw * 0.5; }
  async readChargeCurrent(model = 'PL40') {
    const multipliers = { PL20: 0.1, PL40: 0.2, PL60: 0.4 };
    return raw * (multipliers[model] || 0.2);
  }
  async readState() { ... return { code: raw, name: STATE[raw] || 'UNKNOWN' }; }
  \<close>
  Products with 0.1, 0.2 and 0.4 are IEEE doubles in the source; the model holds the
  exact product.
\<close>

definition ADDR_BATTERY_VOLTAGE :: int where "ADDR_BATTERY_VOLTAGE = 50"
definition ADDR_BATTERY_TEMP :: int where "ADDR_BATTERY_TEMP = 52"
definition ADDR_SOLAR_VOLTAGE :: int where "ADDR_SOLAR_VOLTAGE = 53"
definition ADDR_CHARGE_CURRENT :: int where "ADDR_CHARGE_CURRENT = 212"
definition ADDR_STATE :: int where "ADDR_STATE = 101"
definition ADDR_SOC :: int where "ADDR_SOC = 181"

definition systemVoltage :: real where "systemVoltage = 12"

definition readBatteryVoltage :: "int \<Rightarrow> real" where
  "readBatteryVoltage raw = of_int raw * (systemVoltage / 12)"

definition readBatteryTemp :: "int \<Rightarrow> int" where
  "readBatteryTemp raw = raw - 100"

definition readSOC :: "int \<Rightarrow> int" where
  "readSOC raw = raw"

definition readSolarVoltage :: "int \<Rightarrow> real" where
  "readSolarVoltage raw = of_int raw * (1 / 2)"

definition multipliers :: "(string \<times> real) list" where
  "multipliers = [(''PL20'', 1 / 10), (''PL40'', 2 / 10), (''PL60'', 4 / 10)]"

definition readChargeCurrent :: "string \<Rightarrow> int \<Rightarrow> real" where
  "readChargeCurrent model raw =
     of_int raw * (case map_of multipliers model of Some m \<Rightarrow> m | None \<Rightarrow> 2 / 10)"

text \<open>The state table of pli-driver.js has six entries.\<close>
definition STATE_short :: "(int \<times> string) list" where
  "STATE_short = [(0, ''BOOST''), (1, ''EQUALIZE''), (2, ''ABSORPTION''), (3, ''FLOAT''),
                  (4, ''RESTRICTED''), (5, ''LVD'')]"

definition readState :: "int \<Rightarrow> int \<times> string" where
  "readState raw =
     (raw, case map_of STATE_short raw of Some n \<Rightarrow> n | None \<Rightarrow> ''UNKNOWN'')"

text \<open>
  The complete driver:
  \<^verbatim>\<open>
  const STATE = { 0: 'BOOST', 1: 'EQUALIZE', 2: 'ABSORPTION', 3: 'FLOAT',
                  4: 'RESTRICTED', 5: 'LVD', 6: 'SHORT_EQ', 7: 'UNDEFINED' };
  async getBatteryVoltage() { ... return { raw, voltage: raw }; }  // Return raw until calibrated
  async getBatteryTemp()    { ... return { raw, temp: raw - 100 }; }
  async getSOC()            { ... return { raw, soc: raw }; }
  async getSolarVoltage()   { ... return { raw, voltage: raw * 0.5 }; }
  async getChargeCurrent()  { ... const current = raw * (multipliers[this.model] || 0.2); ... }
  async getState()          { ... return { raw, state: STATE[raw] || 'UNKNOWN' }; }
  \<close>
\<close>

definition STATE :: "(int \<times> string) list" where
  "STATE = [(0, ''BOOST''), (1, ''EQUALIZE''), (2, ''ABSORPTION''), (3, ''FLOAT''),
            (4, ''RESTRICTED''), (5, ''LVD''), (6, ''SHORT_EQ''), (7, ''UNDEFINED'')]"

definition getBatteryVoltage :: "int \<Rightarrow> int \<times> int" where
  "getBatteryVoltage raw = (raw, raw)"

definition getBatteryTemp :: "int \<Rightarrow> int \<times> int" where
  "getBatteryTemp raw = (raw, raw - 100)"

definition getSOC :: "int \<Rightarrow> int \<times> int" where
  "getSOC raw = (raw, raw)"

definition getSolarVoltage :: "int \<Rightarrow> int \<times> real" where
  "getSolarVoltage raw = (raw, of_int raw * (1 / 2))"

definition getChargeCurrent :: "string \<Rightarrow> int \<Rightarrow> int \<times> real" where
  "getChargeCurrent model raw =
     (raw, of_int raw * (case map_of multipliers model of Some m \<Rightarrow> m | None \<Rightarrow> 2 / 10))"

definition getState :: "int \<Rightarrow> int \<times> string" where
  "getState raw =
     (raw, case map_of STATE raw of Some n \<Rightarrow> n | None \<Rightarrow> ''UNKNOWN'')"

section \<open>The circular byte buffer of the driver (buffer.js)\<close>

text \<open>
  \<^verbatim>\<open>
  class CircularBuffer {
    constructor(size = 1024) {
      this.buffer = Buffer.alloc(size);
      this.head = 0; this.tail = 0; this.size = size; this.count = 0;
    }
    writeByte(byte) {
      const next = (this.head + 1) % this.size;
      if (next === this.tail) {
        // Buffer overflow - overwrite tail
        this.tail = (this.tail + 1) % this.size;
      } else {
        this.head = next;
      }
      this.buffer[this.head] = byte;
      if (this.count < this.size) { this.count++; }
    }
    write(data) { ... for (let i = 0; i < data.length; i++) this.writeByte(data[i]); ... }
    readByte() {
      if (this.count === 0) return null;
      const byte = this.buffer[this.tail];
      this.tail = (this.tail + 1) % this.size;
      this.count--;
      return byte;
    }
    peek() { if (this.count === 0) return null; return this.buffer[this.tail]; }
    available() { return this.count; }
  }
  \<close>
  The field \<open>size\<close> is \<open>size_cb\<close> and the method \<open>write\<close> is \<open>write_cb\<close> here. \<open>null\<close> is \<open>None\<close>. \<open>Buffer.alloc\<close> fills
  with zeros.
\<close>

record CircularBuffer =
  buffer :: "8 word list"
  head :: nat
  tail :: nat
  size_cb :: nat
  count :: nat

definition new_CircularBuffer :: "nat \<Rightarrow> CircularBuffer" where
  "new_CircularBuffer sz =
     \<lparr> buffer = replicate sz 0, head = 0, tail = 0, size_cb = sz, count = 0 \<rparr>"

definition writeByte :: "CircularBuffer \<Rightarrow> 8 word \<Rightarrow> CircularBuffer" where
  "writeByte b byte =
     (let next = (head b + 1) mod size_cb b;
          b1 = (if next = tail b then b\<lparr>tail := (tail b + 1) mod size_cb b\<rparr>
                else b\<lparr>head := next\<rparr>);
          b2 = b1\<lparr>buffer := (buffer b1)[head b1 := byte]\<rparr>
      in if count b2 < size_cb b2 then b2\<lparr>count := count b2 + 1\<rparr> else b2)"

definition write_cb :: "CircularBuffer \<Rightarrow> 8 word list \<Rightarrow> CircularBuffer" where
  "write_cb b data = foldl writeByte b data"

definition readByte :: "CircularBuffer \<Rightarrow> 8 word option \<times> CircularBuffer" where
  "readByte b =
     (if count b = 0 then (None, b)
      else (Some (buffer b ! tail b),
            b\<lparr>tail := (tail b + 1) mod size_cb b, count := count b - 1\<rparr>))"

definition peek :: "CircularBuffer \<Rightarrow> 8 word option" where
  "peek b = (if count b = 0 then None else Some (buffer b ! tail b))"

definition available :: "CircularBuffer \<Rightarrow> nat" where
  "available b = count b"

text \<open>Reading \<open>n\<close> bytes in a row, as \<open>n\<close> calls of \<open>readByte\<close>.\<close>
fun readBytes :: "nat \<Rightarrow> CircularBuffer \<Rightarrow> 8 word option list \<times> CircularBuffer" where
  "readBytes 0 b = ([], b)"
| "readBytes (Suc n) b =
     (let (x, b1) = readByte b; (xs, b2) = readBytes n b1 in (x # xs, b2))"

text \<open>
  The bytes a reader will see, oldest first: the walk of \<open>toHex\<close> and \<open>toString\<close>,
  \<open>pos = tail\<close>, then \<open>count\<close> times \<open>buffer[pos]; pos = (pos + 1) % size\<close>.
\<close>
definition contents :: "CircularBuffer \<Rightarrow> 8 word list" where
  "contents b = map (\<lambda>i. buffer b ! ((tail b + i) mod size_cb b)) [0..<count b]"

text \<open>The shape every buffer built by the constructor and its methods has.\<close>
definition cb_wf :: "CircularBuffer \<Rightarrow> bool" where
  "cb_wf b \<longleftrightarrow> 0 < size_cb b \<and> length (buffer b) = size_cb b \<and> head b < size_cb b
     \<and> tail b < size_cb b \<and> count b \<le> size_cb b"

section \<open>The circular buffer of the TCP server\<close>

text \<open>
  The server module has a class of the same name and fields, with other methods:
  \<^verbatim>\<open>
  write(data) {
    for (let byte of data) {
      this.buffer[this.head] = byte;
      this.head = (this.head + 1) % this.size;
      if (this.count < this.size) { this.count++; }
      else { this.tail = (this.tail + 1) % this.size; }
    }
  }
  read() {
    if (this.count === 0) return null;
    const byte = this.buffer[this.tail];
    this.tail = (this.tail + 1) % this.size;
    this.count--;
    return byte;
  }
  \<close>
\<close>

definition server_write1 :: "CircularBuffer \<Rightarrow> 8 word \<Rightarrow> CircularBuffer" where
  "server_write1 b byte =
     (let b1 = b\<lparr>buffer := (buffer b)[head b := byte]\<rparr>;
          b2 = b1\<lparr>head := (head b1 + 1) mod size_cb b1\<rparr>
      in if count b2 < size_cb b2 then b2\<lparr>count := count b2 + 1\<rparr>
         else b2\<lparr>tail := (tail b2 + 1) mod size_cb b2\<rparr>)"

definition server_write :: "CircularBuffer \<Rightarrow> 8 word list \<Rightarrow> CircularBuffer" where
  "server_write b data = foldl server_write1 b data"

definition server_read :: "CircularBuffer \<Rightarrow> 8 word option \<times> CircularBuffer" where
  "server_read b =
     (if count b = 0 then (None, b)
      else (Some (buffer b ! tail b),
            b\<lparr>tail := (tail b + 1) mod size_cb b, count := count b - 1\<rparr>))"

fun server_reads :: "nat \<Rightarrow> CircularBuffer \<Rightarrow> 8 word option list \<times> CircularBuffer" where
  "server_reads 0 b = ([], b)"
| "server_reads (Suc n) b =
     (let (x, b1) = server_read b; (xs, b2) = server_reads n b1 in (x # xs, b2))"

section \<open>The driver\<close>

text \<open>
  The complete driver (class \<open>PLIDriver\<close> with \<open>_connect\<close>, \<open>_processResponses\<close> and the
  \<open>get...\<close> accessors) is the one whose decoder uses the methods that buffer.js has
  (\<open>available\<close>, \<open>peek\<close>, \<open>readByte\<close>); the model follows it. \<open>processResponses\<close> of
  pli-driver.js calls \<open>this.buffer.read()\<close>, a method buffer.js does not define; the
  \<open>read\<close> and the \<open>'close'\<close> handler of pli-driver.js have a section of their own below.

  State that the source keeps in closures, promises, the socket and the event emitter is
  made explicit:
  \<^item> a promise is a number, taken from \<open>next_promise\<close> when \<open>read\<close> creates it; \<open>settled\<close>
    lists the calls of \<open>resolve\<close> and \<open>reject\<close> in order, and the first call for a promise
    decides it;
  \<^item> \<open>this.pending\<close> is a \<open>Map\<close>: an association list in insertion order, \<open>set\<close> being
    \<open>AList.update\<close> (a present key keeps its place) and \<open>delete\<close> being \<open>AList.delete\<close>;
  \<^item> the request id \<open>`${addr}-${Date.now()}`\<close> is the pair of the address and the clock
    value;
  \<^item> \<open>timers\<close> lists the armed \<open>setTimeout\<close> callbacks of \<open>read\<close>, each with what its
    closure captured; \<open>written\<close> lists the \<open>socket.write\<close> calls; \<open>emitted\<close> the events;
  \<^item> \<open>socket_readable\<close> is \<open>this.socket && this.socket.readable\<close>; \<open>reconnectTimer\<close> says
    whether that field holds a timer; \<open>error_listener\<close> whether an \<open>'error'\<close> listener is
    registered (\<open>emit('error', ...)\<close> throws when none is).
\<close>

definition PROTOCOL_PREFIX :: "8 word" where "PROTOCOL_PREFIX = 0xC8"

datatype js_error = NotConnected | TimeoutError int | UnhandledError "8 word" | SocketFailure

datatype outcome = Resolved "8 word" | Rejected js_error

datatype event = Connected | Disconnected | DeviceError "8 word" | SocketError

type_synonym requestId = "int \<times> nat"

record PendingRead =
  promise :: nat
  timeout :: nat
  start :: nat

record PLIDriver =
  socket_readable :: bool
  dbuffer :: CircularBuffer
  pending :: "(requestId \<times> PendingRead) list"
  reconnectTimer :: bool
  error_listener :: bool
  next_promise :: nat
  settled :: "(nat \<times> outcome) list"
  written :: "8 word list list"
  timers :: "(requestId \<times> nat \<times> int \<times> nat) list"
  emitted :: "event list"

text \<open>
  The constructor, which ends with \<open>this._connect()\<close>: a new socket, not yet connected.
\<close>
definition new_PLIDriver :: "bool \<Rightarrow> PLIDriver" where
  "new_PLIDriver listener =
     \<lparr> socket_readable = False, dbuffer = new_CircularBuffer 1024, pending = [],
       reconnectTimer = False, error_listener = listener, next_promise = 0, settled = [],
       written = [], timers = [], emitted = [] \<rparr>"

text \<open>The callback of \<open>socket.connect\<close>, run when the socket has connected.\<close>
definition on_connect :: "PLIDriver \<Rightarrow> PLIDriver" where
  "on_connect d = d\<lparr>socket_readable := True, emitted := emitted d @ [Connected]\<rparr>"

text \<open>
  \<^verbatim>\<open>
  read(addr, timeout = this.timeout) {
    return new Promise((resolve, reject) => {
      if (!this.socket || !this.socket.readable) {
        return reject(new Error(...));   // not connected
      }
      const cmd = this._buildCommand(CMD.READ_RAM, addr);
      const requestId = `${addr}-${Date.now()}`;
      this.pending.set(requestId, { resolve, reject, timeout, start: Date.now() });
      this.socket.write(cmd);
      setTimeout(() => {
        if (this.pending.has(requestId)) {
          this.pending.delete(requestId);
          reject(new Error(`Timeout lecture @${addr}`));
        }
      }, timeout);
    });
  }
  \<close>
  \<open>now\<close> and \<open>now'\<close> are the two readings of the clock. The result is the promise and the
  new state.
\<close>

definition read :: "PLIDriver \<Rightarrow> int \<Rightarrow> nat \<Rightarrow> nat \<Rightarrow> nat \<Rightarrow> nat \<times> PLIDriver" where
  "read d addr tmo now now' =
     (let p = next_promise d;
          d0 = d\<lparr>next_promise := p + 1\<rparr>
      in if \<not> socket_readable d0
         then (p, d0\<lparr>settled := settled d0 @ [(p, Rejected NotConnected)]\<rparr>)
         else
           (let cmd = buildCommand CMD_READ_RAM addr 0x00;
                requestId = (addr, now);
                d1 = d0\<lparr>pending := AList.update requestId
                         \<lparr>promise = p, timeout = tmo, start = now'\<rparr> (pending d0)\<rparr>;
                d2 = d1\<lparr>written := written d1 @ [cmd]\<rparr>
            in (p, d2\<lparr>timers := timers d2 @ [(requestId, p, addr, tmo)]\<rparr>)))"

text \<open>The body of the timer callback, for the request id, promise and address it captured.\<close>
definition timeout_callback :: "requestId \<times> nat \<times> int \<times> nat \<Rightarrow> PLIDriver \<Rightarrow> PLIDriver" where
  "timeout_callback t d =
     (case t of (requestId, p, addr, tmo) \<Rightarrow>
        if requestId \<in> fst ` set (pending d)
        then d\<lparr>pending := AList.delete requestId (pending d),
               settled := settled d @ [(p, Rejected (TimeoutError addr))]\<rparr>
        else d)"

text \<open>An armed timer expires: it leaves the timer list and its callback runs.\<close>
definition timer_fires :: "requestId \<times> nat \<times> int \<times> nat \<Rightarrow> PLIDriver \<Rightarrow> PLIDriver" where
  "timer_fires t d = timeout_callback t (d\<lparr>timers := remove1 t (timers d)\<rparr>)"

text \<open>
  \<^verbatim>\<open>
  _processResponses() {
    while (this.buffer.available() > 0) {
      const prefix = this.buffer.peek();
      if (prefix === PROTOCOL.PREFIX) {
        this.buffer.readByte();  // Consume prefix
        const data = this.buffer.readByte();
        if (data !== null) {
          for (const [id, pending] of this.pending) {
            this.pending.delete(id);
            pending.resolve(data);
            return;  // Only one response per command
          }
        }
      }
      else if (prefix >= 0x80 && prefix <= 0x88) {
        this.buffer.readByte();
        ...
        this.emit('error', { code: prefix });
      }
      else {
        this.buffer.readByte();   // Unknown byte, skip
      }
    }
  }
  \<close>
  \<open>loop_body\<close> is one pass through the body of the \<open>while\<close>: it ends by going round
  again, by the \<open>return\<close>, or by the exception of \<open>emit\<close>.
\<close>

datatype loop_result = Continue PLIDriver | Return PLIDriver | Throw js_error PLIDriver

definition is_error_code :: "8 word option \<Rightarrow> bool" where
  "is_error_code prefix = (case prefix of None \<Rightarrow> False | Some x \<Rightarrow> 0x80 \<le> x \<and> x \<le> 0x88)"

definition loop_body :: "PLIDriver \<Rightarrow> loop_result" where
  "loop_body d =
     (let prefix = peek (dbuffer d)
      in if prefix = Some PROTOCOL_PREFIX then
           (let b1 = snd (readByte (dbuffer d));
                data = fst (readByte b1);
                d1 = d\<lparr>dbuffer := snd (readByte b1)\<rparr>
            in case data of
                 None \<Rightarrow> Continue d1
               | Some v \<Rightarrow>
                   (case pending d1 of
                      [] \<Rightarrow> Continue d1
                    | (rid, e) # rest \<Rightarrow>
                        Return (d1\<lparr>pending := AList.delete rid (pending d1),
                                   settled := settled d1 @ [(promise e, Resolved v)]\<rparr>)))
         else if is_error_code prefix then
           (let d1 = d\<lparr>dbuffer := snd (readByte (dbuffer d))\<rparr>
            in if error_listener d1
               then Continue (d1\<lparr>emitted := emitted d1 @ [DeviceError (the prefix)]\<rparr>)
               else Throw (UnhandledError (the prefix)) d1)
         else Continue (d\<lparr>dbuffer := snd (readByte (dbuffer d))\<rparr>))"

text \<open>
  \<open>_processResponses\<close>. \<open>Inr\<close> is a normal return with the state it leaves, \<open>Inl\<close> the
  exception thrown out of the handler with the state at that moment. Each pass that
  goes round again has consumed at least one byte, so the loop ends.
\<close>
function processResponses :: "PLIDriver \<Rightarrow> (js_error \<times> PLIDriver) + PLIDriver" where
  "processResponses d =
     (if 0 < available (dbuffer d) then
        (case loop_body d of
           Continue d' \<Rightarrow> processResponses d'
         | Return d' \<Rightarrow> Inr d'
         | Throw e d' \<Rightarrow> Inl (e, d'))
      else Inr d)"
  by pat_completeness auto
termination
  by (relation "measure (\<lambda>d. count (dbuffer d))")
    (auto simp: loop_body_def Let_def readByte_def available_def
      split: if_splits option.splits list.splits)

declare processResponses.simps [simp del]

text \<open>The state the driver is in after a handler has run, however it ended.\<close>
definition state_after :: "(js_error \<times> PLIDriver) + PLIDriver \<Rightarrow> PLIDriver" where
  "state_after r = (case r of Inl (e, d) \<Rightarrow> d | Inr d \<Rightarrow> d)"

text \<open>
  \<^verbatim>\<open>
  this.socket.on('data', (data) => {
    this.buffer.write(data);
    this._processResponses();
  });
  this.socket.on('close', () => {
    this.emit('disconnected');
    this._scheduleReconnect();
  });
  _scheduleReconnect() {
    if (this.reconnectTimer) return;
    this.reconnectTimer = setTimeout(() => {
      this.reconnectTimer = null;
      this._connect();
    }, PROTOCOL.RETRY_DELAY_MS);
  }
  disconnect() {
    if (this.reconnectTimer) { clearTimeout(this.reconnectTimer); this.reconnectTimer = null; }
    if (this.socket) { this.socket.end(); this.socket = null; }
  }
  \<close>
\<close>

definition on_data :: "PLIDriver \<Rightarrow> 8 word list \<Rightarrow> (js_error \<times> PLIDriver) + PLIDriver" where
  "on_data d data = processResponses (d\<lparr>dbuffer := write_cb (dbuffer d) data\<rparr>)"

definition scheduleReconnect :: "PLIDriver \<Rightarrow> PLIDriver" where
  "scheduleReconnect d = (if reconnectTimer d then d else d\<lparr>reconnectTimer := True\<rparr>)"

definition on_close :: "PLIDriver \<Rightarrow> PLIDriver" where
  "on_close d = scheduleReconnect (d\<lparr>emitted := emitted d @ [Disconnected]\<rparr>)"

text \<open>The socket closes: it stops being readable and the \<open>'close'\<close> handler runs.\<close>
definition socket_closes :: "PLIDriver \<Rightarrow> PLIDriver" where
  "socket_closes d = on_close (d\<lparr>socket_readable := False\<rparr>)"

text \<open>The reconnect timer's callback: \<open>_connect\<close> makes a new socket, not yet connected.\<close>
definition reconnect_callback :: "PLIDriver \<Rightarrow> PLIDriver" where
  "reconnect_callback d = d\<lparr>reconnectTimer := False, socket_readable := False\<rparr>"

definition disconnect :: "PLIDriver \<Rightarrow> PLIDriver" where
  "disconnect d = d\<lparr>reconnectTimer := False, socket_readable := False\<rparr>"

text \<open>
  \<^verbatim>\<open>
  this.socket.on('error', (err) => {
    console.error(`[PLI] Erreur: ${err.message}`);
    this.emit('error', err);
  });
  \<close>
  Without an \<open>'error'\<close> listener \<open>emit\<close> throws the error it was given.
\<close>
definition on_error :: "PLIDriver \<Rightarrow> (js_error \<times> PLIDriver) + PLIDriver" where
  "on_error d =
     (if error_listener d then Inr (d\<lparr>emitted := emitted d @ [SocketError]\<rparr>)
      else Inl (SocketFailure, d))"

text \<open>The state of a promise: the first call of \<open>resolve\<close> or \<open>reject\<close> for it, if any.\<close>
definition promise_state :: "PLIDriver \<Rightarrow> nat \<Rightarrow> outcome option" where
  "promise_state d p = map_of (settled d) p"

definition returns :: "(js_error \<times> PLIDriver) + PLIDriver \<Rightarrow> bool" where
  "returns r = (case r of Inl x \<Rightarrow> False | Inr d \<Rightarrow> True)"

text \<open>
  What holds of every driver state that the operations above produce from a new driver:
  the buffer is well formed; the keys of the pending map are distinct; so are its
  promises, none of which is settled; every promise in use was allocated before
  \<open>next_promise\<close>; and the promise of an armed timer is pending, if at all, under that
  timer's request id.
\<close>
definition drv_wf :: "PLIDriver \<Rightarrow> bool" where
  "drv_wf d \<longleftrightarrow> cb_wf (dbuffer d)
     \<and> distinct (map fst (pending d))
     \<and> distinct (map (\<lambda>e. promise (snd e)) (pending d))
     \<and> (\<forall>e \<in> set (pending d). promise (snd e) < next_promise d
            \<and> promise (snd e) \<notin> fst ` set (settled d))
     \<and> (\<forall>s \<in> set (settled d). fst s < next_promise d)
     \<and> (\<forall>t \<in> set (timers d). fst (snd t) < next_promise d
            \<and> (\<forall>e \<in> set (pending d). promise (snd e) = fst (snd t) \<longrightarrow> fst e = fst t))"

subsection \<open>Sequences of events\<close>

text \<open>
  Everything that can happen to a driver, one event at a time: a caller issues \<open>read\<close>;
  the socket delivers a chunk, closes, reports an error or has connected; an armed
  request timer expires; the armed reconnect timer expires; a caller calls
  \<open>disconnect\<close>. A timer that is not armed does not expire. After a handler that threw,
  the driver goes on from the state the handler left. \<open>run\<close> takes the events in any
  order, those the sockets can produce among them.
\<close>

datatype driver_event =
    Read int nat nat nat
  | Data "8 word list"
  | TimerFires "requestId \<times> nat \<times> int \<times> nat"
  | SocketClose
  | SocketErr
  | SocketConnect
  | ReconnectTimer
  | Disconnect

fun step :: "driver_event \<Rightarrow> PLIDriver \<Rightarrow> PLIDriver" where
  "step (Read addr tmo now now') d = snd (read d addr tmo now now')"
| "step (Data data) d = state_after (on_data d data)"
| "step (TimerFires t) d = (if t \<in> set (timers d) then timer_fires t d else d)"
| "step SocketClose d = socket_closes d"
| "step SocketErr d = state_after (on_error d)"
| "step SocketConnect d = on_connect d"
| "step ReconnectTimer d = (if reconnectTimer d then reconnect_callback d else d)"
| "step Disconnect d = disconnect d"

fun run :: "driver_event list \<Rightarrow> PLIDriver \<Rightarrow> PLIDriver" where
  "run [] d = d"
| "run (ev # evs) d = run evs (step ev d)"

subsection \<open>Example runs\<close>

text \<open>A connected driver with an \<open>'error'\<close> listener, as the module's own test sets up.\<close>
definition connected_driver :: PLIDriver where
  "connected_driver = on_connect (new_PLIDriver True)"

text \<open>\<open>read(50, 100)\<close> at clock 0 on it: promise 0, request id \<open>(50, 0)\<close>.\<close>
definition one_read :: PLIDriver where
  "one_read = snd (read connected_driver 50 100 0 0)"

text \<open>Then \<open>read(52, 100)\<close> at clock 1, while the first is outstanding: promise 1.\<close>
definition two_reads :: PLIDriver where
  "two_reads = snd (read one_read 52 100 1 1)"

text \<open>The first read times out, and only then the second is issued.\<close>
definition read_after_timeout :: PLIDriver where
  "read_after_timeout = snd (read (timer_fires ((50, 0), 0, 50, 100) one_read) 52 100 1 1)"


text \<open>
  One read outstanding, the chunk \<open>C8\<close> has been handled and the chunk \<open>8A\<close> arrives:
  again the state between \<open>this.buffer.write(data)\<close> and \<open>_processResponses\<close>.
\<close>
definition prefix_at_head :: PLIDriver where
  "prefix_at_head =
     (let s = state_after (on_data one_read [0xC8])
      in s\<lparr>dbuffer := write_cb (dbuffer s) [138]\<rparr>)"

section \<open>The request side of pli-driver.js\<close>

text \<open>
  The driver of pli-driver.js keeps a flag \<open>isConnected\<close> and a map \<open>pendingReads\<close>:
  \<^verbatim>\<open>
  this.socket.on('close', () => {
    this.isConnected = false;
  });
  read(addr, timeout = this.timeout) {
    return new Promise((resolve, reject) => {
      if (!this.isConnected) { return reject(new Error(...)); }
      const cmd = this.buildCommand(CMD.READ_RAM, addr);
      const id = Date.now() + Math.random();
      this.pendingReads.set(id, { resolve, reject, timeout });
      this.socket.write(cmd);
      setTimeout(() => {
        if (this.pendingReads.has(id)) {
          this.pendingReads.delete(id);
          reject(new Error(`Timeout lecture @${addr}`));
        }
      }, timeout);
    });
  }
  \<close>
  The id is a parameter of any type; promises, timers and writes are as above.
\<close>

record PendingRead1 =
  promise1 :: nat
  timeout1 :: nat

record 'id PLIDriver1 =
  isConnected :: bool
  pendingReads :: "('id \<times> PendingRead1) list"
  next_promise1 :: nat
  settled1 :: "(nat \<times> outcome) list"
  written1 :: "8 word list list"
  timers1 :: "('id \<times> nat \<times> int \<times> nat) list"

definition read1 :: "'id PLIDriver1 \<Rightarrow> int \<Rightarrow> nat \<Rightarrow> 'id \<Rightarrow> nat \<times> 'id PLIDriver1" where
  "read1 d addr tmo ident =
     (let p = next_promise1 d;
          d0 = d\<lparr>next_promise1 := p + 1\<rparr>
      in if \<not> isConnected d0
         then (p, d0\<lparr>settled1 := settled1 d0 @ [(p, Rejected NotConnected)]\<rparr>)
         else
           (let cmd = buildCommand CMD_READ_RAM addr 0x00;
                d1 = d0\<lparr>pendingReads := AList.update ident
                         \<lparr>promise1 = p, timeout1 = tmo\<rparr> (pendingReads d0)\<rparr>;
                d2 = d1\<lparr>written1 := written1 d1 @ [cmd]\<rparr>
            in (p, d2\<lparr>timers1 := timers1 d2 @ [(ident, p, addr, tmo)]\<rparr>)))"

definition timeout_callback1 :: "'id \<times> nat \<times> int \<times> nat \<Rightarrow> 'id PLIDriver1 \<Rightarrow> 'id PLIDriver1" where
  "timeout_callback1 t d =
     (case t of (ident, p, addr, tmo) \<Rightarrow>
        if ident \<in> fst ` set (pendingReads d)
        then d\<lparr>pendingReads := AList.delete ident (pendingReads d),
               settled1 := settled1 d @ [(p, Rejected (TimeoutError addr))]\<rparr>
        else d)"

definition on_close1 :: "'id PLIDriver1 \<Rightarrow> 'id PLIDriver1" where
  "on_close1 d = d\<lparr>isConnected := False\<rparr>"

section \<open>Bytes under the bitwise operators\<close>

lemma is_byte_take_bit: "is_byte a \<longleftrightarrow> take_bit 8 a = a"
  by (auto simp add: is_byte_def take_bit_int_eq_self_iff)

lemma ToInt32_byte: "is_byte a \<Longrightarrow> ToInt32 a = a"
  unfolding ToInt32_def is_byte_def
  by (rule signed_take_bit_int_eq_self) simp_all

lemma is_byte_xor: "is_byte a \<Longrightarrow> is_byte b \<Longrightarrow> is_byte (a XOR b)"
  unfolding is_byte_take_bit by (simp add: take_bit_xor)

lemma is_byte_and: "is_byte a \<Longrightarrow> is_byte (a AND b)"
  unfolding is_byte_def using AND_upper1 [of a b] by simp

lemma js_xor_byte: "is_byte a \<Longrightarrow> is_byte b \<Longrightarrow> js_xor a b = a XOR b"
  by (simp add: js_xor_def ToInt32_byte)

lemma js_and_byte: "is_byte a \<Longrightarrow> is_byte b \<Longrightarrow> js_and a b = a AND b"
  by (simp add: js_and_def ToInt32_byte)

lemma uint_byte: "is_byte a \<Longrightarrow> uint (word_of_int a :: 8 word) = a"
  by (simp add: uint_word_of_int_eq is_byte_take_bit)

lemma is_byte_numerals: "is_byte 0" "is_byte 15" "is_byte 240" "is_byte 255"
  by (simp_all add: is_byte_def)

lemma and_15: "(b::int) AND 15 = b mod 16"
proof -
  have "b AND mask 4 = b mod 2 ^ 4"
    by (simp add: take_bit_eq_mod flip: take_bit_eq_mask)
  then show ?thesis by (simp add: mask_eq_exp_minus_1)
qed

lemma byte_div_16:
  assumes "is_byte b"
  shows "(b div 16) mod 16 = b div 16"
proof -
  have "b div 16 \<le> 255 div 16"
    using assms unfolding is_byte_def by (intro zdiv_mono1) simp_all
  moreover have "0 \<le> b div 16"
    using assms unfolding is_byte_def by (simp add: pos_imp_zdiv_nonneg_iff)
  ultimately show ?thesis by simp
qed

lemma low_nibble: "is_byte b \<Longrightarrow> js_and b 0x0F = b AND 0x0F"
  by (simp add: js_and_byte is_byte_numerals)

lemma high_nibble:
  assumes "is_byte b"
  shows "js_shr (js_and b 0xF0) 4 = drop_bit 4 (b AND 0xF0)"
proof -
  have "is_byte (b AND 240)" using assms by (rule is_byte_and)
  then show ?thesis
    using assms by (simp add: js_shr_def js_and_byte is_byte_numerals ToInt32_byte)
qed

lemma high_nibble_div:
  assumes b: "is_byte b"
  shows "drop_bit 4 (b AND 0xF0) = b div 16"
proof -
  have d: "drop_bit 4 (240::int) = 15"
    by (simp add: drop_bit_eq_div)
  have "drop_bit 4 (b AND 240) = drop_bit 4 b AND drop_bit 4 240"
    by (rule drop_bit_and)
  also have "\<dots> = drop_bit 4 b AND 15"
    by (simp only: d)
  also have "\<dots> = (b div 16) mod 16"
    by (simp add: and_15 drop_bit_eq_div)
  also have "\<dots> = b div 16"
    using b by (rule byte_div_16)
  finally show ?thesis by simp
qed

section \<open>The command encoder\<close>

text \<open>
  Claim C1. For every opcode, address and payload that are bytes (0 to 255), the encoder
  returns exactly the four bytes opcode, address, payload, checksum, where the checksum
  is opcode XOR address XOR payload XOR 0xFF. The encoder is a function of its three
  arguments alone: it reads and changes no state.
\<close>
theorem buildCommand_bytes:
  assumes "is_byte cmd" "is_byte addr" "is_byte data"
  shows "map uint (buildCommand cmd addr data)
           = [cmd, addr, data, cmd XOR addr XOR data XOR 0xFF]"
  using assms
  by (simp add: buildCommand_def Buffer_from_def js_xor_byte is_byte_xor is_byte_numerals
      uint_byte xor.assoc)

theorem buildCommand_bytes_witness:
  "is_byte 0x14 \<and> is_byte 50 \<and> is_byte 0
     \<and> map uint (buildCommand 0x14 50 0) = [0x14, 50, 0, 0xD9]"
proof -
  have h: "is_byte 0x14" "is_byte 50" "is_byte 0" by (simp_all add: is_byte_def)
  show ?thesis using h buildCommand_bytes [OF h] by simp
qed

section \<open>The history log\<close>

text \<open>
  Claim C3. For every pointer from 0 to 29 and every day from 1 to 30, the offset is
  the base offset (log start plus 7 times the pointer) minus 7 times (day - 1), replaced
  by that value plus 210 when it falls below the log start; and it always lies in the
  range from the log start (inclusive) to the log start plus 210 (exclusive).
\<close>
theorem historyOffset_bounds:
  assumes "0 \<le> pointer" "pointer \<le> 29" "1 \<le> day" "day \<le> 30"
  shows "historyOffset pointer day
           = (if baseOffset pointer - 7 * (day - 1) < logStart
              then baseOffset pointer + 210 - 7 * (day - 1)
              else baseOffset pointer - 7 * (day - 1))
         \<and> logStart \<le> historyOffset pointer day
         \<and> historyOffset pointer day < logStart + 210"
  using assms by (auto simp: historyOffset_def baseOffset_def logStart_def ringSize_def Let_def)

theorem historyOffset_bounds_witness:
  "(0::int) \<le> 2 \<and> (2::int) \<le> 29 \<and> (1::int) \<le> 10 \<and> (10::int) \<le> 30
     \<and> baseOffset 2 = 60 \<and> historyOffset 2 1 = 60 \<and> historyOffset 2 10 = 207
     \<and> logStart \<le> historyOffset 2 10 \<and> historyOffset 2 10 < logStart + 210"
  using historyOffset_bounds [of 2 10]
  by (simp add: historyOffset_def baseOffset_def logStart_def ringSize_def)

text \<open>
  Claim C4. For every seven-byte record, the parsed record has
  chargeAh = b4 + (b6 AND 0x0F) * 256 and loadAh = b5 + ((b6 AND 0xF0) >> 4) * 256, the
  two factors being the low and the high nibble of b6. Only b6 has to be a byte for
  this. For the record 10, 20, 30, 40, 50, 60, 0x13 this gives 818 and 316.
\<close>
theorem parseDayRecord_nibbles:
  assumes "is_byte b6"
  shows "map_option (\<lambda>r. (chargeAh r, loadAh r))
             (parseDayRecord ratio [b0, b1, b2, b3, b4, b5, b6])
           = Some (b4 + (b6 AND 0x0F) * 256, b5 + drop_bit 4 (b6 AND 0xF0) * 256)
         \<and> b6 AND 0x0F = b6 mod 16 \<and> drop_bit 4 (b6 AND 0xF0) = b6 div 16"
  using assms
  by (simp add: low_nibble high_nibble high_nibble_div and_15 del: drop_bit_and)

theorem parseDayRecord_nibbles_witness:
  "is_byte 0x13
     \<and> map_option (\<lambda>r. (chargeAh r, loadAh r))
          (parseDayRecord 1 [10, 20, 30, 40, 50, 60, 0x13]) = Some (818, 316)"
proof -
  have h: "is_byte 0x13" by (simp add: is_byte_def)
  have a: "(0x13::int) mod 16 = 3" "(0x13::int) div 16 = 1" by simp_all
  show ?thesis
    using h parseDayRecord_nibbles [OF h, of 1 10 20 30 40 50 60] by (simp add: a)
qed

section \<open>The semantic accessors\<close>

lemma map_of_STATE_None: "raw < 0 \<or> 7 < raw \<Longrightarrow> map_of STATE raw = None"
  by (auto simp: STATE_def)

lemma map_of_STATE_short_None: "raw < 0 \<or> 5 < raw \<Longrightarrow> map_of STATE_short raw = None"
  by (auto simp: STATE_short_def)

text \<open>
  Claim C5, as stated, fails: the battery voltage is not the raw byte times the system
  voltage ratio. Neither driver takes a ratio: for the raw byte 138 both give 138, which
  is not 138 times 2, the value for a 24 V system.
\<close>
theorem readBatteryVoltage_ratio_counterexample:
  "readBatteryVoltage 138 = 138 \<and> readBatteryVoltage 138 \<noteq> 138 * 2
     \<and> snd (getBatteryVoltage 138) = 138 \<and> snd (getBatteryVoltage 138) \<noteq> 138 * 2"
  by (simp add: readBatteryVoltage_def systemVoltage_def getBatteryVoltage_def)

text \<open>
  Claim C5, amended. For every raw value: the battery voltage is the raw value itself
  (the system voltage is fixed at 12 V); the battery temperature is raw - 100; the state
  of charge is raw; the solar voltage is raw times 0.5; the charge current is raw times
  0.1, 0.2 or 0.4 for the models PL20, PL40 and PL60; the controller state of the
  complete driver is looked up in the table of the codes 0 to 7 (BOOST, EQUALIZE,
  ABSORPTION, FLOAT, RESTRICTED, LVD, SHORT_EQ, UNDEFINED), that of pli-driver.js in
  the table of the codes 0 to 5, and a code below 0 or above 7 is UNKNOWN in both.
\<close>
theorem semantic_decode_table:
  "readBatteryVoltage raw = of_int raw \<and> snd (getBatteryVoltage raw) = raw
   \<and> readBatteryTemp raw = raw - 100 \<and> snd (getBatteryTemp raw) = raw - 100
   \<and> readSOC raw = raw \<and> snd (getSOC raw) = raw
   \<and> readSolarVoltage raw = of_int raw * (1 / 2)
   \<and> snd (getSolarVoltage raw) = of_int raw * (1 / 2)
   \<and> map (\<lambda>m. readChargeCurrent m raw) [''PL20'', ''PL40'', ''PL60'']
        = [of_int raw * (1 / 10), of_int raw * (2 / 10), of_int raw * (4 / 10)]
   \<and> map (\<lambda>m. snd (getChargeCurrent m raw)) [''PL20'', ''PL40'', ''PL60'']
        = [of_int raw * (1 / 10), of_int raw * (2 / 10), of_int raw * (4 / 10)]
   \<and> map (\<lambda>c. snd (getState c)) [0, 1, 2, 3, 4, 5, 6, 7]
        = [''BOOST'', ''EQUALIZE'', ''ABSORPTION'', ''FLOAT'', ''RESTRICTED'', ''LVD'',
           ''SHORT_EQ'', ''UNDEFINED'']
   \<and> map (\<lambda>c. snd (readState c)) [0, 1, 2, 3, 4, 5]
        = [''BOOST'', ''EQUALIZE'', ''ABSORPTION'', ''FLOAT'', ''RESTRICTED'', ''LVD'']
   \<and> (raw < 0 \<or> 7 < raw \<longrightarrow>
        snd (getState raw) = ''UNKNOWN'' \<and> snd (readState raw) = ''UNKNOWN'')"
  by (simp add: readBatteryVoltage_def systemVoltage_def getBatteryVoltage_def
      readBatteryTemp_def getBatteryTemp_def readSOC_def getSOC_def readSolarVoltage_def
      getSolarVoltage_def readChargeCurrent_def getChargeCurrent_def multipliers_def
      getState_def readState_def map_of_STATE_None map_of_STATE_short_None)
     (simp add: STATE_def STATE_short_def)

theorem semantic_decode_table_witness:
  "((200::int) < 0 \<or> (7::int) < 200) \<and> snd (getState 200) = ''UNKNOWN''
     \<and> snd (readState 200) = ''UNKNOWN'' \<and> readBatteryTemp 80 = -20
     \<and> readSolarVoltage 37 = 37 / 2 \<and> readChargeCurrent ''PL40'' 21 = 42 / 10"
  using semantic_decode_table [of 200] semantic_decode_table [of 80]
    semantic_decode_table [of 37] semantic_decode_table [of 21]
  by simp

section \<open>The circular buffers\<close>

subsection \<open>What a reader sees\<close>

lemma length_contents: "length (contents b) = count b"
  by (simp add: contents_def)

lemma contents_Nil_iff: "contents b = [] \<longleftrightarrow> count b = 0"
  by (simp add: contents_def)

lemma readByte_empty: "contents b = [] \<Longrightarrow> readByte b = (None, b)"
  by (simp add: readByte_def contents_Nil_iff)

lemma contents_Cons:
  assumes "contents b = x # xs"
  shows "0 < count b"
    and "x = buffer b ! (tail b mod size_cb b)"
    and "xs = map (\<lambda>i. buffer b ! ((tail b + Suc i) mod size_cb b)) [0..<count b - 1]"
proof -
  show c: "0 < count b" using assms by (cases "count b") (simp_all add: contents_def)
  then obtain n where n: "count b = Suc n" by (cases "count b") simp_all
  have "[0..<Suc n] = 0 # map Suc [0..<n]"
    by (simp add: upt_conv_Cons map_Suc_upt del: upt_Suc)
  then have "contents b = buffer b ! (tail b mod size_cb b)
      # map (\<lambda>i. buffer b ! ((tail b + Suc i) mod size_cb b)) [0..<n]"
    by (simp add: contents_def n comp_def del: upt_Suc)
  with assms n
  show "x = buffer b ! (tail b mod size_cb b)"
    and "xs = map (\<lambda>i. buffer b ! ((tail b + Suc i) mod size_cb b)) [0..<count b - 1]"
    by simp_all
qed

lemma readByte_Cons:
  assumes wf: "cb_wf b" and c: "contents b = x # xs"
  shows "fst (readByte b) = Some x"
    and "contents (snd (readByte b)) = xs"
    and "cb_wf (snd (readByte b))"
proof -
  note cc = contents_Cons [OF c]
  have t: "tail b mod size_cb b = tail b" using wf by (simp add: cb_wf_def)
  show "fst (readByte b) = Some x"
    using cc(1,2) t by (simp add: readByte_def)
  have "((tail b + 1) mod size_cb b + i) mod size_cb b = (tail b + Suc i) mod size_cb b" for i
    by (simp add: mod_add_left_eq)
  then show "contents (snd (readByte b)) = xs"
    using cc(1,3) by (simp add: readByte_def contents_def)
  show "cb_wf (snd (readByte b))"
    using wf cc(1) by (auto simp add: readByte_def cb_wf_def)
qed

lemma peek_Cons: "cb_wf b \<Longrightarrow> contents b = x # xs \<Longrightarrow> peek b = Some x"
  using contents_Cons [of b x xs] by (simp add: peek_def cb_wf_def)

lemma available_contents: "available b = length (contents b)"
  by (simp add: available_def length_contents)


lemma cb_wf_new: "0 < n \<Longrightarrow> cb_wf (new_CircularBuffer n)"
  by (simp add: cb_wf_def new_CircularBuffer_def)

lemma cb_wf_writeByte: "cb_wf b \<Longrightarrow> cb_wf (writeByte b x)"
  by (auto simp: cb_wf_def writeByte_def Let_def)

lemma cb_wf_write_cb: "cb_wf b \<Longrightarrow> cb_wf (write_cb b xs)"
  unfolding write_cb_def by (induction xs arbitrary: b) (simp_all add: cb_wf_writeByte)

lemma cb_wf_readByte: "cb_wf b \<Longrightarrow> cb_wf (snd (readByte b))"
  by (auto simp: cb_wf_def readByte_def)

lemma readBytes_contents:
  "cb_wf b \<Longrightarrow> n \<le> count b \<Longrightarrow> fst (readBytes n b) = map Some (take n (contents b))"
proof (induction n arbitrary: b)
  case 0
  then show ?case by simp
next
  case (Suc n)
  then obtain x xs where c: "contents b = x # xs"
    by (cases "contents b") (simp_all add: contents_Nil_iff)
  note r = readByte_Cons [OF Suc.prems(1) c]
  have "count (snd (readByte b)) = length xs"
    using r(2) length_contents [of "snd (readByte b)"] by simp
  moreover have "length xs = count b - 1"
    using c length_contents [of b] by simp
  ultimately have "n \<le> count (snd (readByte b))" using Suc.prems(2) by simp
  then have "fst (readBytes n (snd (readByte b))) = map Some (take n xs)"
    using Suc.IH [OF r(3)] r(2) by simp
  then show ?case
    using r(1) c by (simp add: split_beta)
qed

subsection \<open>The driver's buffer lags one byte behind\<close>

lemma ring_index_neq:
  fixes t i j n :: nat
  assumes "i < j" "j - i < n"
  shows "(t + i) mod n \<noteq> (t + j) mod n"
proof
  assume "(t + i) mod n = (t + j) mod n"
  then have "(t + j) mod n = (t + i) mod n" by simp
  moreover have "t + i \<le> t + j" using assms(1) by simp
  ultimately have "n dvd (t + j) - (t + i)"
    by (simp add: mod_eq_dvd_iff_nat)
  then have "n dvd j - i" by simp
  moreover have "0 < j - i" using assms(1) by simp
  ultimately have "n \<le> j - i" by (rule dvd_imp_le)
  then show False using assms(2) by simp
qed

text \<open>buffer.js: a write stores at \<open>head + 1\<close>, one cell beyond what the reader reaches.\<close>
lemma writeByte_lag:
  assumes wf: "cb_wf b"
    and h: "head b = (tail b + count b) mod size_cb b"
    and c: "count b + 1 < size_cb b"
  shows "contents (writeByte b x) = contents b @ [buffer b ! head b]"
    and "buffer (writeByte b x) ! head (writeByte b x) = x"
    and "head (writeByte b x) = (tail (writeByte b x) + count (writeByte b x)) mod size_cb (writeByte b x)"
    and "count (writeByte b x) = count b + 1"
    and "size_cb (writeByte b x) = size_cb b"
proof -
  let ?n = "size_cb b"
  let ?next = "(head b + 1) mod ?n"
  have next_eq: "?next = (tail b + (count b + 1)) mod ?n"
    unfolding h by (simp add: mod_Suc_eq)
  have t: "tail b = (tail b + 0) mod ?n" using wf by (simp add: cb_wf_def)
  have "(tail b + 0) mod ?n \<noteq> (tail b + (count b + 1)) mod ?n"
    using c by (intro ring_index_neq) simp_all
  then have ne: "?next \<noteq> tail b" using next_eq t by simp
  have w: "writeByte b x = b\<lparr>head := ?next, buffer := (buffer b)[?next := x],
      count := count b + 1\<rparr>"
    using ne c by (simp add: writeByte_def Let_def)
  have out: "?next \<noteq> (tail b + i) mod ?n" if "i < count b + 1" for i
  proof -
    have "(tail b + i) mod ?n \<noteq> (tail b + (count b + 1)) mod ?n"
      using that c by (intro ring_index_neq) simp_all
    then show ?thesis unfolding next_eq by (rule not_sym)
  qed
  have "contents (writeByte b x)
      = map (\<lambda>i. (buffer b)[?next := x] ! ((tail b + i) mod ?n)) [0..<count b + 1]"
    by (simp add: w contents_def)
  also have "\<dots> = map (\<lambda>i. buffer b ! ((tail b + i) mod ?n)) [0..<count b + 1]"
  proof (rule map_cong [OF refl])
    fix i assume "i \<in> set [0..<count b + 1]"
    then have "i < count b + 1" by auto
    then have "?next \<noteq> (tail b + i) mod ?n" by (rule out)
    then show "(buffer b)[?next := x] ! ((tail b + i) mod ?n) = buffer b ! ((tail b + i) mod ?n)"
      by (rule nth_list_update_neq)
  qed
  also have "\<dots> = contents b @ [buffer b ! head b]"
    by (simp add: contents_def h)
  finally show "contents (writeByte b x) = contents b @ [buffer b ! head b]" .
  have "?next < length (buffer b)" using wf by (simp add: cb_wf_def)
  then show "buffer (writeByte b x) ! head (writeByte b x) = x" by (simp add: w)
  show "head (writeByte b x) = (tail (writeByte b x) + count (writeByte b x)) mod size_cb (writeByte b x)"
    using next_eq by (simp add: w)
  show "count (writeByte b x) = count b + 1" "size_cb (writeByte b x) = size_cb b"
    by (simp_all add: w)
qed

lemma write_cb_lag:
  assumes "cb_wf b"
    and "head b = (tail b + count b) mod size_cb b"
    and "count b + length xs < size_cb b"
  shows "contents (write_cb b xs) = contents b @ butlast (buffer b ! head b # xs)"
  using assms
proof (induction xs arbitrary: b)
  case Nil
  then show ?case by (simp add: write_cb_def)
next
  case (Cons x xs)
  have c: "count b + 1 < size_cb b" using Cons.prems(3) by simp
  note l = writeByte_lag [OF Cons.prems(1,2) c, of x]
  have "contents (write_cb (writeByte b x) xs)
      = contents (writeByte b x) @ butlast (buffer (writeByte b x) ! head (writeByte b x) # xs)"
    using Cons.prems l by (intro Cons.IH) (simp_all add: cb_wf_writeByte)
  then show ?case
    using l by (simp add: write_cb_def)
qed

text \<open>
  After any \<open>xs\<close> of fewer bytes than the capacity is written to a new buffer, reading
  \<open>length xs\<close> bytes gives a zero and then all of \<open>xs\<close> but its last byte.
\<close>
lemma buffer_js_reads_lagged:
  assumes "length xs < n"
  shows "fst (readBytes (length xs) (write_cb (new_CircularBuffer n) xs))
           = map Some (butlast (0 # xs))"
proof -
  let ?b = "new_CircularBuffer n"
  have n: "0 < n" using assms by simp
  have wf: "cb_wf ?b" using n by (rule cb_wf_new)
  have c: "contents (write_cb ?b xs) = contents ?b @ butlast (buffer ?b ! head ?b # xs)"
    using wf assms by (intro write_cb_lag) (simp_all add: new_CircularBuffer_def)
  have z: "buffer ?b ! head ?b = 0" using n by (simp add: new_CircularBuffer_def)
  have e: "contents ?b = []" by (simp add: new_CircularBuffer_def contents_def)
  have cc: "contents (write_cb ?b xs) = butlast (0 # xs)" using c z e by simp
  have "count (write_cb ?b xs) = length (contents (write_cb ?b xs))"
    by (simp add: length_contents)
  also have "\<dots> = length (butlast (0 # xs))" by (simp only: cc)
  also have "\<dots> = length xs" by simp
  finally have "count (write_cb ?b xs) = length xs" .
  then show ?thesis
    using readBytes_contents [OF cb_wf_write_cb [OF wf], of "length xs" xs] cc by simp
qed

subsection \<open>The server's buffer\<close>

lemma server_read_eq: "server_read b = readByte b"
  by (simp add: server_read_def readByte_def)

lemma server_reads_eq: "server_reads n b = readBytes n b"
  by (induction n arbitrary: b) (simp_all add: server_read_eq)

lemma cb_wf_server_write1: "cb_wf b \<Longrightarrow> cb_wf (server_write1 b x)"
  by (auto simp: cb_wf_def server_write1_def Let_def)

lemma cb_wf_server_write: "cb_wf b \<Longrightarrow> cb_wf (server_write b xs)"
  unfolding server_write_def by (induction xs arbitrary: b) (simp_all add: cb_wf_server_write1)

text \<open>The server's buffer stores at \<open>head\<close> and then advances it.\<close>
lemma server_write1_snoc:
  assumes wf: "cb_wf b"
    and h: "head b = (tail b + count b) mod size_cb b"
    and c: "count b < size_cb b"
  shows "contents (server_write1 b x) = contents b @ [x]"
    and "head (server_write1 b x)
           = (tail (server_write1 b x) + count (server_write1 b x)) mod size_cb (server_write1 b x)"
    and "count (server_write1 b x) = count b + 1"
    and "size_cb (server_write1 b x) = size_cb b"
proof -
  let ?n = "size_cb b"
  have w: "server_write1 b x = b\<lparr>buffer := (buffer b)[head b := x],
      head := (head b + 1) mod ?n, count := count b + 1\<rparr>"
    using c by (simp add: server_write1_def Let_def)
  have hl: "head b < length (buffer b)" using wf by (simp add: cb_wf_def)
  have old: "(buffer b)[head b := x] ! ((tail b + i) mod ?n) = buffer b ! ((tail b + i) mod ?n)"
    if "i < count b" for i
  proof -
    have "(tail b + i) mod ?n \<noteq> (tail b + count b) mod ?n"
      using that c by (intro ring_index_neq) simp_all
    then have "head b \<noteq> (tail b + i) mod ?n" unfolding h by (rule not_sym)
    then show ?thesis by (rule nth_list_update_neq)
  qed
  have "map (\<lambda>i. (buffer b)[head b := x] ! ((tail b + i) mod ?n)) [0..<count b]
      = map (\<lambda>i. buffer b ! ((tail b + i) mod ?n)) [0..<count b]"
  proof (rule map_cong [OF refl])
    fix i assume "i \<in> set [0..<count b]"
    then have "i < count b" by auto
    then show "(buffer b)[head b := x] ! ((tail b + i) mod ?n) = buffer b ! ((tail b + i) mod ?n)"
      by (rule old)
  qed
  moreover have "(buffer b)[head b := x] ! ((tail b + count b) mod ?n) = x"
    using hl by (simp flip: h)
  ultimately show "contents (server_write1 b x) = contents b @ [x]"
    by (simp add: w contents_def)
  show "head (server_write1 b x)
           = (tail (server_write1 b x) + count (server_write1 b x)) mod size_cb (server_write1 b x)"
    by (simp add: w h mod_Suc_eq)
  show "count (server_write1 b x) = count b + 1" "size_cb (server_write1 b x) = size_cb b"
    by (simp_all add: w)
qed

lemma server_write_contents:
  assumes "cb_wf b"
    and "head b = (tail b + count b) mod size_cb b"
    and "count b + length xs \<le> size_cb b"
  shows "contents (server_write b xs) = contents b @ xs"
  using assms
proof (induction xs arbitrary: b)
  case Nil
  then show ?case by (simp add: server_write_def)
next
  case (Cons x xs)
  have c: "count b < size_cb b" using Cons.prems(3) by simp
  note l = server_write1_snoc [OF Cons.prems(1,2) c, of x]
  have "contents (server_write (server_write1 b x) xs) = contents (server_write1 b x) @ xs"
    using Cons.prems l by (intro Cons.IH) (simp_all add: cb_wf_server_write1)
  then show ?case
    using l by (simp add: server_write_def)
qed

text \<open>
  The server's buffer gives back what was written: after any \<open>xs\<close> of at most the
  capacity is written to a new buffer, reading \<open>length xs\<close> bytes gives \<open>xs\<close>.
\<close>
lemma server_buffer_roundtrip:
  assumes "length xs \<le> n" "0 < n"
  shows "fst (server_reads (length xs) (server_write (new_CircularBuffer n) xs)) = map Some xs"
proof -
  let ?b = "new_CircularBuffer n"
  have wf: "cb_wf ?b" using assms(2) by (rule cb_wf_new)
  have "contents (server_write ?b xs) = contents ?b @ xs"
    using wf assms by (intro server_write_contents) (simp_all add: new_CircularBuffer_def)
  then have cc: "contents (server_write ?b xs) = xs"
    by (simp add: new_CircularBuffer_def contents_def)
  have "count (server_write ?b xs) = length (contents (server_write ?b xs))"
    by (simp add: length_contents)
  then have "count (server_write ?b xs) = length xs" by (simp only: cc)
  then show ?thesis
    using readBytes_contents [OF cb_wf_server_write [OF wf], of "length xs" xs] cc
    by (simp add: server_reads_eq)
qed

text \<open>
  Claim C10 fails on the driver's buffer (buffer.js). \<open>writeByte\<close> advances \<open>head\<close>
  before it stores, so the first byte goes to cell 1, while \<open>readByte\<close> starts at cell 0:
  after \<open>41\<close> is written to a new buffer of capacity 1024 the byte read is 0, and after
  \<open>41 42\<close> the two bytes read are 0 and \<open>41\<close>. The buffer class of the server, with
  the same fields, gives \<open>41 42\<close> back.
\<close>
theorem first_byte_read_is_not_first_written:
  "fst (readByte (write_cb (new_CircularBuffer 1024) [0x41])) = Some 0
     \<and> fst (readBytes 2 (write_cb (new_CircularBuffer 1024) [0x41, 0x42])) = [Some 0, Some 0x41]
     \<and> fst (server_reads 2 (server_write (new_CircularBuffer 1024) [0x41, 0x42]))
          = [Some 0x41, Some 0x42]"
  by code_simp

text \<open>
  What the lag means for the driver: with \<open>read(50)\<close> outstanding on a new connection,
  the chunk \<open>C8 8A\<close> resolves nothing; the reader sees a zero and the prefix.
\<close>
lemma first_response_resolves_nothing:
  "contents (write_cb (dbuffer one_read) [0xC8, 138]) = [0, 0xC8]
     \<and> settled (state_after (on_data one_read [0xC8, 138])) = []
     \<and> pending (state_after (on_data one_read [0xC8, 138])) = pending one_read"
  by code_simp

section \<open>The decoder\<close>


lemma loop_body_partial:
  assumes wf: "cb_wf (dbuffer d)"
    and c: "contents (dbuffer d) = [PROTOCOL_PREFIX]"
  shows "loop_body d = Continue (d\<lparr>dbuffer := snd (readByte (dbuffer d))\<rparr>)"
    and "contents (snd (readByte (dbuffer d))) = []"
    and "cb_wf (snd (readByte (dbuffer d)))"
proof -
  let ?b1 = "snd (readByte (dbuffer d))"
  show b1: "contents ?b1 = []" "cb_wf ?b1"
    using readByte_Cons [OF wf c] by simp_all
  have b2: "readByte ?b1 = (None, ?b1)"
    using b1(1) by (rule readByte_empty)
  show "loop_body d = Continue (d\<lparr>dbuffer := ?b1\<rparr>)"
    using peek_Cons [OF wf c] b1 b2 by (simp add: loop_body_def Let_def)
qed

lemma loop_body_frame_no_pending:
  assumes wf: "cb_wf (dbuffer d)"
    and c: "contents (dbuffer d) = PROTOCOL_PREFIX # v # rest"
    and p: "pending d = []"
  shows "loop_body d = Continue (d\<lparr>dbuffer := snd (readByte (snd (readByte (dbuffer d))))\<rparr>)"
    and "contents (snd (readByte (snd (readByte (dbuffer d))))) = rest"
    and "cb_wf (snd (readByte (snd (readByte (dbuffer d)))))"
proof -
  let ?b1 = "snd (readByte (dbuffer d))"
  have b1: "contents ?b1 = v # rest" "cb_wf ?b1"
    using readByte_Cons [OF wf c] by simp_all
  have b2: "fst (readByte ?b1) = Some v" "contents (snd (readByte ?b1)) = rest"
    "cb_wf (snd (readByte ?b1))"
    using readByte_Cons [OF b1(2) b1(1)] by simp_all
  show "loop_body d = Continue (d\<lparr>dbuffer := snd (readByte ?b1)\<rparr>)"
    using peek_Cons [OF wf c] b2 p by (simp add: loop_body_def Let_def)
  show "contents (snd (readByte ?b1)) = rest" "cb_wf (snd (readByte ?b1))"
    using b2 by simp_all
qed



lemma processResponses_empty:
  "\<not> 0 < available (dbuffer d) \<Longrightarrow> processResponses d = Inr d"
  by (subst processResponses.simps) simp

lemma processResponses_Continue:
  "0 < available (dbuffer d) \<Longrightarrow> loop_body d = Continue d' \<Longrightarrow>
     processResponses d = processResponses d'"
  by (subst processResponses.simps) simp

lemma processResponses_Return:
  "0 < available (dbuffer d) \<Longrightarrow> loop_body d = Return d' \<Longrightarrow> processResponses d = Inr d'"
  by (subst processResponses.simps) simp

lemma processResponses_Throw:
  "0 < available (dbuffer d) \<Longrightarrow> loop_body d = Throw e d' \<Longrightarrow>
     processResponses d = Inl (e, d')"
  by (subst processResponses.simps) simp

lemma loop_body_Throw_listener: "loop_body d = Throw e d' \<Longrightarrow> \<not> error_listener d"
  by (auto simp: loop_body_def Let_def split: if_splits option.splits list.splits)

lemma loop_body_Continue_listener:
  "loop_body d = Continue d' \<Longrightarrow> error_listener d' = error_listener d"
  by (auto simp: loop_body_def Let_def split: if_splits option.splits list.splits)

text \<open>With an \<open>'error'\<close> listener registered the decoder always returns normally.\<close>
lemma processResponses_returns: "error_listener d \<Longrightarrow> returns (processResponses d)"
proof (induction d rule: processResponses.induct)
  case (1 d)
  show ?case
  proof (cases "0 < available (dbuffer d)")
    case False
    then show ?thesis by (simp add: processResponses_empty returns_def)
  next
    case True
    show ?thesis
    proof (cases "loop_body d")
      case (Continue d')
      have "error_listener d'"
        using loop_body_Continue_listener [OF Continue] "1.prems" by simp
      then have "returns (processResponses d')"
        using True Continue by (rule "1.IH" [rotated 2])
      then show ?thesis
        using processResponses_Continue [OF True Continue] by simp
    next
      case (Return d')
      then show ?thesis
        using processResponses_Return [OF True Return] by (simp add: returns_def)
    next
      case (Throw e d')
      then show ?thesis
        using loop_body_Throw_listener [OF Throw] "1.prems" by simp
    qed
  qed
qed


lemma loop_body_cases:
  obtains (skip) b' where "loop_body d = Continue (d\<lparr>dbuffer := b'\<rparr>)"
      "cb_wf (dbuffer d) \<Longrightarrow> cb_wf b'"
  | (report) b' x where
      "loop_body d = Continue (d\<lparr>dbuffer := b', emitted := emitted d @ [DeviceError x]\<rparr>)"
      "cb_wf (dbuffer d) \<Longrightarrow> cb_wf b'"
  | (resolve) b' rid e ps v where "pending d = (rid, e) # ps"
      "loop_body d = Return (d\<lparr>dbuffer := b', pending := AList.delete rid (pending d),
          settled := settled d @ [(promise e, Resolved v)]\<rparr>)"
      "cb_wf (dbuffer d) \<Longrightarrow> cb_wf b'"
  | (throw) b' x where "loop_body d = Throw (UnhandledError x) (d\<lparr>dbuffer := b'\<rparr>)"
      "cb_wf (dbuffer d) \<Longrightarrow> cb_wf b'"
proof (cases "peek (dbuffer d) = Some PROTOCOL_PREFIX")
  case True
  let ?b2 = "snd (readByte (snd (readByte (dbuffer d))))"
  have wf: "cb_wf (dbuffer d) \<Longrightarrow> cb_wf ?b2" by (simp add: cb_wf_readByte)
  show thesis
  proof (cases "fst (readByte (snd (readByte (dbuffer d))))")
    case None
    then have "loop_body d = Continue (d\<lparr>dbuffer := ?b2\<rparr>)"
      using True by (simp add: loop_body_def Let_def)
    then show thesis using wf by (rule skip)
  next
    case (Some v)
    show thesis
    proof (cases "pending d")
      case Nil
      then have "loop_body d = Continue (d\<lparr>dbuffer := ?b2\<rparr>)"
        using True Some by (simp add: loop_body_def Let_def)
      then show thesis using wf by (rule skip)
    next
      case (Cons a ps)
      obtain rid e where a: "a = (rid, e)" by (cases a)
      have p: "pending d = (rid, e) # ps" using Cons a by simp
      have "loop_body d = Return (d\<lparr>dbuffer := ?b2, pending := AList.delete rid (pending d),
          settled := settled d @ [(promise e, Resolved v)]\<rparr>)"
        using True Some p by (simp add: loop_body_def Let_def)
      then show thesis using wf by (rule resolve [OF p])
    qed
  qed
next
  case False
  let ?b1 = "snd (readByte (dbuffer d))"
  have wf: "cb_wf (dbuffer d) \<Longrightarrow> cb_wf ?b1" by (simp add: cb_wf_readByte)
  show thesis
  proof (cases "is_error_code (peek (dbuffer d))")
    case nerr: False
    then have "loop_body d = Continue (d\<lparr>dbuffer := ?b1\<rparr>)"
      using False by (simp add: loop_body_def Let_def)
    then show thesis using wf by (rule skip)
  next
    case err: True
    show thesis
    proof (cases "error_listener d")
      case True
      then have "loop_body d = Continue (d\<lparr>dbuffer := ?b1,
           emitted := emitted d @ [DeviceError (the (peek (dbuffer d)))]\<rparr>)"
        using False err by (simp add: loop_body_def Let_def)
      then show thesis using wf by (rule report)
    next
      case nol: False
      then have "loop_body d = Throw (UnhandledError (the (peek (dbuffer d)))) (d\<lparr>dbuffer := ?b1\<rparr>)"
        using False err by (simp add: loop_body_def Let_def)
      then show thesis using wf by (rule throw)
    qed
  qed
qed

text \<open>A frame cut after its prefix: the prefix is consumed and nothing else changes.\<close>
lemma processResponses_partial:
  assumes "cb_wf (dbuffer d)" and "contents (dbuffer d) = [PROTOCOL_PREFIX]"
  shows "processResponses d = Inr (d\<lparr>dbuffer := snd (readByte (dbuffer d))\<rparr>)"
    and "contents (snd (readByte (dbuffer d))) = []"
proof -
  note l = loop_body_partial [OF assms]
  have a: "0 < available (dbuffer d)" using assms(2) by (simp add: available_contents)
  have e: "\<not> 0 < available (dbuffer (d\<lparr>dbuffer := snd (readByte (dbuffer d))\<rparr>))"
    using l(2) by (simp add: available_contents)
  show "processResponses d = Inr (d\<lparr>dbuffer := snd (readByte (dbuffer d))\<rparr>)"
    using processResponses_Continue [OF a l(1)] processResponses_empty [OF e] by simp
  show "contents (snd (readByte (dbuffer d))) = []" by (rule l(2))
qed

lemma processResponses_settled:
  "s \<in> set (settled (state_after (processResponses d))) \<Longrightarrow>
     s \<in> set (settled d) \<or> (\<exists>e v. e \<in> set (pending d) \<and> s = (promise (snd e), Resolved v))"
proof (induction d rule: processResponses.induct)
  case (1 d)
  show ?case
  proof (cases "0 < available (dbuffer d)")
    case False
    then show ?thesis using "1.prems" by (simp add: processResponses_empty state_after_def)
  next
    case True
    show ?thesis
    proof (cases d rule: loop_body_cases)
      case (skip b')
      have "processResponses d = processResponses (d\<lparr>dbuffer := b'\<rparr>)"
        using True skip(1) by (rule processResponses_Continue)
      then show ?thesis using "1.IH" [OF True skip(1)] "1.prems" by simp
    next
      case (report b' x)
      let ?d = "d\<lparr>dbuffer := b', emitted := emitted d @ [DeviceError x]\<rparr>"
      have "processResponses d = processResponses ?d"
        using True report(1) by (rule processResponses_Continue)
      then show ?thesis using "1.IH" [OF True report(1)] "1.prems" by simp
    next
      case (resolve b' rid e ps v)
      have "state_after (processResponses d) = d\<lparr>dbuffer := b',
          pending := AList.delete rid (pending d),
          settled := settled d @ [(promise e, Resolved v)]\<rparr>"
        using processResponses_Return [OF True resolve(2)] by (simp add: state_after_def)
      with "1.prems" have "s \<in> set (settled d) \<or> s = (promise (snd (rid, e)), Resolved v)"
        by auto
      moreover have "(rid, e) \<in> set (pending d)" using resolve(1) by simp
      ultimately show ?thesis by blast
    next
      case (throw b' x)
      have "state_after (processResponses d) = d\<lparr>dbuffer := b'\<rparr>"
        using processResponses_Throw [OF True throw(1)] by (simp add: state_after_def)
      then show ?thesis using "1.prems" by simp
    qed
  qed
qed

lemma processResponses_no_pending:
  "pending d = [] \<Longrightarrow> settled (state_after (processResponses d)) = settled d
     \<and> pending (state_after (processResponses d)) = []"
proof (induction d rule: processResponses.induct)
  case (1 d)
  show ?case
  proof (cases "0 < available (dbuffer d)")
    case False
    then show ?thesis using "1.prems" by (simp add: processResponses_empty state_after_def)
  next
    case True
    show ?thesis
    proof (cases d rule: loop_body_cases)
      case (skip b')
      have "processResponses d = processResponses (d\<lparr>dbuffer := b'\<rparr>)"
        using True skip(1) by (rule processResponses_Continue)
      then show ?thesis using "1.IH" [OF True skip(1)] "1.prems" by simp
    next
      case (report b' x)
      let ?d = "d\<lparr>dbuffer := b', emitted := emitted d @ [DeviceError x]\<rparr>"
      have "processResponses d = processResponses ?d"
        using True report(1) by (rule processResponses_Continue)
      then show ?thesis using "1.IH" [OF True report(1)] "1.prems" by simp
    next
      case (resolve b' rid e ps v)
      then show ?thesis using "1.prems" by simp
    next
      case (throw b' x)
      have "state_after (processResponses d) = d\<lparr>dbuffer := b'\<rparr>"
        using processResponses_Throw [OF True throw(1)] by (simp add: state_after_def)
      then show ?thesis using "1.prems" by simp
    qed
  qed
qed

lemma on_data_settled:
  "s \<in> set (settled (state_after (on_data d data))) \<Longrightarrow>
     s \<in> set (settled d) \<or> (\<exists>e v. e \<in> set (pending d) \<and> s = (promise (snd e), Resolved v))"
  unfolding on_data_def using processResponses_settled [of s "d\<lparr>dbuffer := write_cb (dbuffer d) data\<rparr>"]
  by simp

lemma on_data_no_pending:
  "pending d = [] \<Longrightarrow> settled (state_after (on_data d data)) = settled d
     \<and> pending (state_after (on_data d data)) = []"
  unfolding on_data_def using processResponses_no_pending [of "d\<lparr>dbuffer := write_cb (dbuffer d) data\<rparr>"]
  by simp

section \<open>The invariant of the driver\<close>

lemma set_delete_subset: "set (AList.delete k al) \<subseteq> set al"
  by (auto simp: AList.delete_eq)

lemma distinct_map_delete:
  "distinct (map f al) \<Longrightarrow> distinct (map f (AList.delete k al))"
  by (simp add: AList.delete_eq distinct_map_filter)

lemma delete_hd: "k \<notin> fst ` set ps \<Longrightarrow> AList.delete k ((k, e) # ps) = ps"
  by (simp add: AList.delete_eq filter_id_conv) (auto simp: image_iff)

lemma update_absent: "k \<notin> fst ` set al \<Longrightarrow> AList.update k v al = al @ [(k, v)]"
  by (induction al) auto

lemma set_update_subset: "set (AList.update k v al) \<subseteq> insert (k, v) (set al)"
  by (induction al) auto

lemma distinct_promise_update:
  assumes "distinct (map (\<lambda>e. promise (snd e)) al)"
    and "\<forall>e \<in> set al. promise (snd e) \<noteq> promise v"
  shows "distinct (map (\<lambda>e. promise (snd e)) (AList.update k v al))"
  using assms
proof (induction al)
  case Nil
  then show ?case by simp
next
  case (Cons a al)
  have s: "set (AList.update k v al) \<subseteq> insert (k, v) (set al)"
    by (rule set_update_subset)
  show ?case
  proof (cases "fst a = k")
    case True
    then show ?thesis using Cons.prems by (auto simp: image_iff)
  next
    case False
    then show ?thesis using Cons s by (auto simp: image_iff)
  qed
qed

lemma drv_wfD:
  assumes "drv_wf d"
  shows "cb_wf (dbuffer d)"
    and "distinct (map fst (pending d))"
    and "distinct (map (\<lambda>e. promise (snd e)) (pending d))"
    and "\<And>e. e \<in> set (pending d) \<Longrightarrow> promise (snd e) < next_promise d"
    and "\<And>e. e \<in> set (pending d) \<Longrightarrow> promise (snd e) \<notin> fst ` set (settled d)"
    and "\<And>s. s \<in> set (settled d) \<Longrightarrow> fst s < next_promise d"
    and "\<And>t. t \<in> set (timers d) \<Longrightarrow> fst (snd t) < next_promise d"
    and "\<And>t e. t \<in> set (timers d) \<Longrightarrow> e \<in> set (pending d) \<Longrightarrow>
           promise (snd e) = fst (snd t) \<Longrightarrow> fst e = fst t"
  using assms unfolding drv_wf_def by blast+

lemma drv_wfI:
  assumes "cb_wf (dbuffer d)"
    and "distinct (map fst (pending d))"
    and "distinct (map (\<lambda>e. promise (snd e)) (pending d))"
    and "\<And>e. e \<in> set (pending d) \<Longrightarrow> promise (snd e) < next_promise d"
    and "\<And>e. e \<in> set (pending d) \<Longrightarrow> promise (snd e) \<notin> fst ` set (settled d)"
    and "\<And>s. s \<in> set (settled d) \<Longrightarrow> fst s < next_promise d"
    and "\<And>t. t \<in> set (timers d) \<Longrightarrow> fst (snd t) < next_promise d"
    and "\<And>t e. t \<in> set (timers d) \<Longrightarrow> e \<in> set (pending d) \<Longrightarrow>
           promise (snd e) = fst (snd t) \<Longrightarrow> fst e = fst t"
  shows "drv_wf d"
  using assms unfolding drv_wf_def by blast

lemma drv_wf_new: "drv_wf (new_PLIDriver l)"
  by (simp add: drv_wf_def new_PLIDriver_def cb_wf_new)

lemma drv_wf_on_connect: "drv_wf d \<Longrightarrow> drv_wf (on_connect d)"
  by (simp add: drv_wf_def on_connect_def)

lemma drv_wf_socket_closes: "drv_wf d \<Longrightarrow> drv_wf (socket_closes d)"
  by (simp add: drv_wf_def socket_closes_def on_close_def scheduleReconnect_def)

lemma drv_wf_reconnect_callback: "drv_wf d \<Longrightarrow> drv_wf (reconnect_callback d)"
  by (simp add: drv_wf_def reconnect_callback_def)

lemma drv_wf_disconnect: "drv_wf d \<Longrightarrow> drv_wf (disconnect d)"
  by (simp add: drv_wf_def disconnect_def)

lemma read_not_connected:
  "\<not> socket_readable d \<Longrightarrow> read d addr tmo now now' =
     (next_promise d, d\<lparr>next_promise := next_promise d + 1,
        settled := settled d @ [(next_promise d, Rejected NotConnected)]\<rparr>)"
  by (simp add: read_def Let_def)

lemma read_connected:
  "socket_readable d \<Longrightarrow> read d addr tmo now now' =
     (next_promise d, d\<lparr>next_promise := next_promise d + 1,
        pending := AList.update (addr, now)
           \<lparr>promise = next_promise d, timeout = tmo, start = now'\<rparr> (pending d),
        written := written d @ [buildCommand CMD_READ_RAM addr 0],
        timers := timers d @ [((addr, now), next_promise d, addr, tmo)]\<rparr>)"
  by (simp add: read_def Let_def)

lemma drv_wf_read:
  assumes wf: "drv_wf d"
  shows "drv_wf (snd (read d addr tmo now now'))"
proof (cases "socket_readable d")
  case False
  note D = drv_wfD [OF wf]
  show ?thesis
    unfolding read_not_connected [OF False]
  proof (rule drv_wfI, goal_cases)
    case 1 show ?case using D(1) by simp
  next
    case 2 show ?case using D(2) by simp
  next
    case 3 show ?case using D(3) by simp
  next
    case (4 e) then show ?case using D(4) [of e] by simp
  next
    case (5 e) then show ?case using D(5) [of e] D(4) [of e] by auto
  next
    case (6 s) then show ?case using D(6) [of s] by auto
  next
    case (7 t) then show ?case using D(7) [of t] by simp
  next
    case (8 t e) then show ?case using D(8) [of t e] by simp
  qed
next
  case True
  note D = drv_wfD [OF wf]
  let ?p = "next_promise d"
  let ?v = "\<lparr>promise = ?p, timeout = tmo, start = now'\<rparr>"
  let ?al = "AList.update (addr, now) ?v (pending d)"
  have fresh: "\<forall>e \<in> set (pending d). promise (snd e) \<noteq> promise ?v"
    using D(4) by fastforce
  have sub: "\<And>e. e \<in> set ?al \<Longrightarrow> e = ((addr, now), ?v) \<or> e \<in> set (pending d)"
    using set_update_subset [of "(addr, now)" ?v "pending d"] by auto
  show ?thesis
    unfolding read_connected [OF True]
  proof (rule drv_wfI, goal_cases)
    case 1 show ?case using D(1) by simp
  next
    case 2 show ?case using D(2) by (simp add: distinct_update)
  next
    case 3 show ?case using distinct_promise_update [OF D(3) fresh] by simp
  next
    case (4 e)
    then have "e = ((addr, now), ?v) \<or> e \<in> set (pending d)" using sub by simp
    then show ?case using D(4) [of e] by auto
  next
    case (5 e)
    then have "e = ((addr, now), ?v) \<or> e \<in> set (pending d)" using sub by simp
    then show ?case using D(5) [of e] D(6) by fastforce
  next
    case (6 s) then show ?case using D(6) [of s] by auto
  next
    case (7 t) then show ?case using D(7) [of t] by auto
  next
    case (8 t e)
    then have e: "e = ((addr, now), ?v) \<or> e \<in> set (pending d)" using sub by simp
    have t: "t = ((addr, now), ?p, addr, tmo) \<or> t \<in> set (timers d)" using 8 by auto
    show ?case
    proof (cases "e = ((addr, now), ?v)")
      case True
      show ?thesis using t
      proof
        assume "t = ((addr, now), ?p, addr, tmo)"
        then show ?thesis using True by simp
      next
        assume "t \<in> set (timers d)"
        then show ?thesis using True 8(3) D(7) [of t] by simp
      qed
    next
      case False
      then have ep: "e \<in> set (pending d)" using e by simp
      show ?thesis using t
      proof
        assume "t = ((addr, now), ?p, addr, tmo)"
        then show ?thesis using D(4) [OF ep] 8(3) by simp
      next
        assume "t \<in> set (timers d)"
        then show ?thesis using D(8) [OF _ ep] 8(3) by simp
      qed
    qed
  qed
qed

lemma timeout_callback_present:
  "rid \<in> fst ` set (pending d) \<Longrightarrow> timeout_callback (rid, p, addr, tmo) d =
     d\<lparr>pending := AList.delete rid (pending d),
       settled := settled d @ [(p, Rejected (TimeoutError addr))]\<rparr>"
  by (simp add: timeout_callback_def)

lemma timeout_callback_absent:
  "rid \<notin> fst ` set (pending d) \<Longrightarrow> timeout_callback (rid, p, addr, tmo) d = d"
  by (simp add: timeout_callback_def)

lemma drv_wf_timers_subset:
  assumes wf: "drv_wf d" and sub: "set ts \<subseteq> set (timers d)"
  shows "drv_wf (d\<lparr>timers := ts\<rparr>)"
proof -
  note D = drv_wfD [OF wf]
  show ?thesis
  proof (rule drv_wfI, goal_cases)
    case 1 show ?case using D(1) by simp
  next
    case 2 show ?case using D(2) by simp
  next
    case 3 show ?case using D(3) by simp
  next
    case (4 e) then show ?case using D(4) [of e] by simp
  next
    case (5 e) then show ?case using D(5) [of e] by simp
  next
    case (6 s) then show ?case using D(6) [of s] by simp
  next
    case (7 t) then show ?case using D(7) [of t] sub by auto
  next
    case (8 t e) then show ?case using D(8) [of t e] sub by auto
  qed
qed

lemma drv_wf_timeout_callback:
  assumes wf: "drv_wf d"
    and own: "\<And>e. e \<in> set (pending d) \<Longrightarrow> promise (snd e) = p \<Longrightarrow> fst e = rid"
    and plt: "p < next_promise d"
  shows "drv_wf (timeout_callback (rid, p, addr, tmo) d)"
proof (cases "rid \<in> fst ` set (pending d)")
  case False
  then show ?thesis using wf by (simp add: timeout_callback_absent)
next
  case True
  note D = drv_wfD [OF wf]
  have sub: "\<And>e. e \<in> set (AList.delete rid (pending d)) \<Longrightarrow> e \<in> set (pending d) \<and> fst e \<noteq> rid"
    by (auto simp: AList.delete_eq)
  show ?thesis
    unfolding timeout_callback_present [OF True]
  proof (rule drv_wfI, goal_cases)
    case 1 show ?case using D(1) by simp
  next
    case 2 show ?case using D(2) by (simp add: distinct_map_delete)
  next
    case 3 show ?case using D(3) by (simp add: distinct_map_delete)
  next
    case (4 e) then show ?case using D(4) [of e] sub [of e] by simp
  next
    case (5 e)
    then have e: "e \<in> set (pending d)" "fst e \<noteq> rid" using sub [of e] by simp_all
    then have "promise (snd e) \<noteq> p" using own [of e] by auto
    then show ?case using D(5) [OF e(1)] by auto
  next
    case (6 s) then show ?case using D(6) [of s] plt by auto
  next
    case (7 t) then show ?case using D(7) [of t] by simp
  next
    case (8 t e) then show ?case using D(8) [of t e] sub [of e] by simp
  qed
qed

lemma drv_wf_timer_fires:
  assumes wf: "drv_wf d" and t: "t \<in> set (timers d)"
  shows "drv_wf (timer_fires t d)"
proof -
  obtain rid p addr tmo where tt: "t = (rid, p, addr, tmo)" by (cases t) auto
  note D = drv_wfD [OF wf]
  let ?d = "d\<lparr>timers := remove1 t (timers d)\<rparr>"
  have 1: "drv_wf ?d"
    using wf set_remove1_subset by (rule drv_wf_timers_subset)
  have 2: "\<And>e. e \<in> set (pending ?d) \<Longrightarrow> promise (snd e) = p \<Longrightarrow> fst e = rid"
    using D(8) [OF t] tt by simp
  have 3: "p < next_promise ?d" using D(7) [OF t] tt by simp
  show ?thesis
    unfolding timer_fires_def tt
    using drv_wf_timeout_callback [OF 1 2 3] tt by simp
qed

lemma drv_wf_buffer_emitted:
  "drv_wf d \<Longrightarrow> cb_wf b' \<Longrightarrow> drv_wf (d\<lparr>dbuffer := b', emitted := es\<rparr>)"
  "drv_wf d \<Longrightarrow> cb_wf b' \<Longrightarrow> drv_wf (d\<lparr>dbuffer := b'\<rparr>)"
  by (simp_all add: drv_wf_def)

lemma drv_wf_resolve:
  assumes wf: "drv_wf d" and b: "cb_wf b'" and p: "pending d = (rid, e) # ps"
  shows "drv_wf (d\<lparr>dbuffer := b', pending := AList.delete rid (pending d),
          settled := settled d @ [(promise e, Resolved v)]\<rparr>)"
proof -
  note D = drv_wfD [OF wf]
  have del: "AList.delete rid (pending d) = ps"
    using D(2) p by (simp add: delete_hd)
  have ep: "(rid, e) \<in> set (pending d)" using p by simp
  have sub: "\<And>x. x \<in> set ps \<Longrightarrow> x \<in> set (pending d)" using p by simp
  have ne: "\<And>x. x \<in> set ps \<Longrightarrow> promise (snd x) \<noteq> promise e"
    using D(3) p by (auto simp: image_iff)
  show ?thesis
    unfolding del
  proof (rule drv_wfI, goal_cases)
    case 1 show ?case using b by simp
  next
    case 2 show ?case using D(2) p by simp
  next
    case 3 show ?case using D(3) p by simp
  next
    case (4 x) then show ?case using D(4) [of x] sub [of x] by simp
  next
    case (5 x) then show ?case using D(5) [of x] sub [of x] ne [of x] by auto
  next
    case (6 s) then show ?case using D(6) [of s] D(4) [OF ep] by auto
  next
    case (7 t) then show ?case using D(7) [of t] by simp
  next
    case (8 t x) then show ?case using D(8) [of t x] sub [of x] by simp
  qed
qed

lemma drv_wf_processResponses:
  "drv_wf d \<Longrightarrow> drv_wf (state_after (processResponses d))"
proof (induction d rule: processResponses.induct)
  case (1 d)
  show ?case
  proof (cases "0 < available (dbuffer d)")
    case False
    then show ?thesis using "1.prems" by (simp add: processResponses_empty state_after_def)
  next
    case True
    note wf = drv_wfD(1) [OF "1.prems"]
    show ?thesis
    proof (cases d rule: loop_body_cases)
      case (skip b')
      have "drv_wf (d\<lparr>dbuffer := b'\<rparr>)"
        using "1.prems" skip(2) [OF wf] by (rule drv_wf_buffer_emitted)
      then have "drv_wf (state_after (processResponses (d\<lparr>dbuffer := b'\<rparr>)))"
        using True skip(1) by (rule "1.IH" [rotated 2])
      then show ?thesis
        using processResponses_Continue [OF True skip(1)] by simp
    next
      case (report b' x)
      let ?d = "d\<lparr>dbuffer := b', emitted := emitted d @ [DeviceError x]\<rparr>"
      have "drv_wf ?d"
        using "1.prems" report(2) [OF wf] by (rule drv_wf_buffer_emitted)
      then have "drv_wf (state_after (processResponses ?d))"
        using True report(1) by (rule "1.IH" [rotated 2])
      then show ?thesis
        using processResponses_Continue [OF True report(1)] by simp
    next
      case (resolve b' rid e ps v)
      show ?thesis
        using drv_wf_resolve [OF "1.prems" resolve(3) [OF wf] resolve(1)]
          processResponses_Return [OF True resolve(2)]
        by (simp add: state_after_def)
    next
      case (throw b' x)
      have "drv_wf (d\<lparr>dbuffer := b'\<rparr>)"
        using "1.prems" throw(2) [OF wf] by (rule drv_wf_buffer_emitted)
      then show ?thesis
        using processResponses_Throw [OF True throw(1)] by (simp add: state_after_def)
    qed
  qed
qed

lemma drv_wf_on_data: "drv_wf d \<Longrightarrow> drv_wf (state_after (on_data d data))"
  unfolding on_data_def
  by (rule drv_wf_processResponses) (simp add: drv_wf_def cb_wf_write_cb)



lemma drv_wf_one_read: "drv_wf one_read"
  unfolding one_read_def connected_driver_def
  by (intro drv_wf_read drv_wf_on_connect drv_wf_new)

section \<open>What no sequence of events does\<close>

lemma processResponses_fields:
  "timers (state_after (processResponses d)) = timers d
     \<and> next_promise (state_after (processResponses d)) = next_promise d
     \<and> set (pending (state_after (processResponses d))) \<subseteq> set (pending d)
     \<and> (\<exists>xs. settled (state_after (processResponses d)) = settled d @ xs)"
proof (induction d rule: processResponses.induct)
  case (1 d)
  show ?case
  proof (cases "0 < available (dbuffer d)")
    case False
    then show ?thesis by (simp add: processResponses_empty state_after_def)
  next
    case True
    show ?thesis
    proof (cases d rule: loop_body_cases)
      case (skip b')
      have "processResponses d = processResponses (d\<lparr>dbuffer := b'\<rparr>)"
        using True skip(1) by (rule processResponses_Continue)
      then show ?thesis using "1.IH" [OF True skip(1)] by simp
    next
      case (report b' x)
      let ?d = "d\<lparr>dbuffer := b', emitted := emitted d @ [DeviceError x]\<rparr>"
      have "processResponses d = processResponses ?d"
        using True report(1) by (rule processResponses_Continue)
      then show ?thesis using "1.IH" [OF True report(1)] by simp
    next
      case (resolve b' rid e ps v)
      have "state_after (processResponses d) = d\<lparr>dbuffer := b',
          pending := AList.delete rid (pending d),
          settled := settled d @ [(promise e, Resolved v)]\<rparr>"
        using processResponses_Return [OF True resolve(2)] by (simp add: state_after_def)
      then show ?thesis using set_delete_subset [of rid "pending d"] by simp
    next
      case (throw b' x)
      have "state_after (processResponses d) = d\<lparr>dbuffer := b'\<rparr>"
        using processResponses_Throw [OF True throw(1)] by (simp add: state_after_def)
      then show ?thesis by simp
    qed
  qed
qed

lemma on_data_fields:
  "timers (state_after (on_data d data)) = timers d"
  "next_promise (state_after (on_data d data)) = next_promise d"
  "set (pending (state_after (on_data d data))) \<subseteq> set (pending d)"
  "\<exists>xs. settled (state_after (on_data d data)) = settled d @ xs"
  unfolding on_data_def
  using processResponses_fields [of "d\<lparr>dbuffer := write_cb (dbuffer d) data\<rparr>"]
  by simp_all

lemma on_error_fields:
  "timers (state_after (on_error d)) = timers d"
  "next_promise (state_after (on_error d)) = next_promise d"
  "pending (state_after (on_error d)) = pending d"
  "settled (state_after (on_error d)) = settled d"
  by (simp_all add: on_error_def state_after_def)

lemma drv_wf_on_error: "drv_wf d \<Longrightarrow> drv_wf (state_after (on_error d))"
  by (simp add: on_error_def state_after_def drv_wf_def)

lemma drv_wf_step: "drv_wf d \<Longrightarrow> drv_wf (step ev d)"
  by (cases ev)
    (simp_all add: drv_wf_read drv_wf_on_data drv_wf_timer_fires drv_wf_socket_closes
      drv_wf_on_error drv_wf_on_connect drv_wf_reconnect_callback drv_wf_disconnect)

lemma drv_wf_run: "drv_wf d \<Longrightarrow> drv_wf (run evs d)"
  by (induction evs arbitrary: d) (simp_all add: drv_wf_step)

lemma read_fields:
  "next_promise (snd (read d addr tmo now now')) = next_promise d + 1"
  "set (pending (snd (read d addr tmo now now')))
     \<subseteq> insert ((addr, now), \<lparr>promise = next_promise d, timeout = tmo, start = now'\<rparr>)
         (set (pending d))"
  "set (timers (snd (read d addr tmo now now')))
     \<subseteq> insert ((addr, now), next_promise d, addr, tmo) (set (timers d))"
  "settled (snd (read d addr tmo now now')) = settled d
     \<or> settled (snd (read d addr tmo now now'))
          = settled d @ [(next_promise d, Rejected NotConnected)]"
  using set_update_subset [of "(addr, now)"
      "\<lparr>promise = next_promise d, timeout = tmo, start = now'\<rparr>" "pending d"]
  by (cases "socket_readable d"; auto simp: read_connected read_not_connected)+

lemma timer_fires_fields:
  "next_promise (timer_fires t d) = next_promise d"
  "set (pending (timer_fires t d)) \<subseteq> set (pending d)"
  "set (timers (timer_fires t d)) \<subseteq> set (timers d)"
  "settled (timer_fires t d) = settled d
     \<or> settled (timer_fires t d)
          = settled d @ [(fst (snd t), Rejected (TimeoutError (fst (snd (snd t)))))]"
  using set_delete_subset [of "fst t" "pending d"] set_remove1_subset [of t "timers d"]
  by (cases t; auto simp: timer_fires_def timeout_callback_def)+

lemma step_never_resolves:
  assumes "p < next_promise d"
    and "\<forall>e \<in> set (pending d). promise (snd e) \<noteq> p"
    and "\<forall>v. (p, Resolved v) \<notin> set (settled d)"
  shows "p < next_promise (step ev d)
     \<and> (\<forall>e \<in> set (pending (step ev d)). promise (snd e) \<noteq> p)
     \<and> (\<forall>v. (p, Resolved v) \<notin> set (settled (step ev d)))"
proof (cases ev)
  case (Read addr tmo now now')
  note f = read_fields [of d addr tmo now now']
  have "\<forall>e \<in> set (pending (snd (read d addr tmo now now'))). promise (snd e) \<noteq> p"
    using f(2) assms(1,2) by fastforce
  moreover have "\<forall>v. (p, Resolved v) \<notin> set (settled (snd (read d addr tmo now now')))"
    using f(4) assms(3) by auto
  ultimately show ?thesis using Read f(1) assms(1) by simp
next
  case (Data data)
  note f = on_data_fields [of d data]
  have "\<forall>e \<in> set (pending (state_after (on_data d data))). promise (snd e) \<noteq> p"
    using f(3) assms(2) by blast
  moreover have "(p, Resolved v) \<notin> set (settled (state_after (on_data d data)))" for v
  proof
    assume "(p, Resolved v) \<in> set (settled (state_after (on_data d data)))"
    then have "(p, Resolved v) \<in> set (settled d)
        \<or> (\<exists>e w. e \<in> set (pending d) \<and> (p, Resolved v) = (promise (snd e), Resolved w))"
      by (rule on_data_settled)
    then show False using assms(2,3) by auto
  qed
  ultimately show ?thesis using Data f(2) assms(1) by simp
next
  case (TimerFires t)
  note f = timer_fires_fields [of t d]
  have "\<forall>e \<in> set (pending (timer_fires t d)). promise (snd e) \<noteq> p"
    using f(2) assms(2) by blast
  moreover have "\<forall>v. (p, Resolved v) \<notin> set (settled (timer_fires t d))"
    using f(4) assms(3) by auto
  ultimately show ?thesis using TimerFires f(1) assms by simp
next
  case SocketClose
  then show ?thesis
    using assms by (simp add: socket_closes_def on_close_def scheduleReconnect_def)
next
  case SocketErr
  then show ?thesis using assms by (simp add: on_error_fields)
next
  case SocketConnect
  then show ?thesis using assms by (simp add: on_connect_def)
next
  case ReconnectTimer
  then show ?thesis using assms by (simp add: reconnect_callback_def)
next
  case Disconnect
  then show ?thesis using assms by (simp add: disconnect_def)
qed

lemma run_never_resolves:
  assumes "p < next_promise d"
    and "\<forall>e \<in> set (pending d). promise (snd e) \<noteq> p"
    and "\<forall>v. (p, Resolved v) \<notin> set (settled d)"
  shows "(p, Resolved v) \<notin> set (settled (run evs d))"
  using assms
proof (induction evs arbitrary: d)
  case Nil
  then show ?case by simp
next
  case (Cons ev evs)
  note s = step_never_resolves [OF Cons.prems, of ev]
  show ?case using Cons.IH [of "step ev d"] s by simp
qed

lemma step_settled_prefix: "\<exists>xs. settled (step ev d) = settled d @ xs"
proof (cases ev)
  case (Read addr tmo now now')
  then show ?thesis using read_fields(4) [of d addr tmo now now'] by auto
next
  case (Data data)
  then show ?thesis using on_data_fields(4) [of d data] by simp
next
  case (TimerFires t)
  then show ?thesis using timer_fires_fields(4) [of t d] by auto
next
  case SocketClose
  then show ?thesis by (simp add: socket_closes_def on_close_def scheduleReconnect_def)
next
  case SocketErr
  then show ?thesis by (simp add: on_error_fields)
next
  case SocketConnect
  then show ?thesis by (simp add: on_connect_def)
next
  case ReconnectTimer
  then show ?thesis by (simp add: reconnect_callback_def)
next
  case Disconnect
  then show ?thesis by (simp add: disconnect_def)
qed

lemma run_settled_prefix: "\<exists>xs. settled (run evs d) = settled d @ xs"
proof (induction evs arbitrary: d)
  case Nil
  then show ?case by simp
next
  case (Cons ev evs)
  obtain xs where xs: "settled (step ev d) = settled d @ xs"
    using step_settled_prefix by blast
  obtain ys where "settled (run evs (step ev d)) = settled (step ev d) @ ys"
    using Cons.IH by blast
  then show ?case using xs by simp
qed

lemma run_promise_state_stays:
  assumes "promise_state d p = Some x"
  shows "promise_state (run evs d) p = Some x"
proof -
  obtain xs where "settled (run evs d) = settled d @ xs"
    using run_settled_prefix by blast
  then show ?thesis
    using assms by (simp add: promise_state_def map_add_Some_iff)
qed



section \<open>Requests and responses\<close>



text \<open>
  Claim C6 fails. With one read outstanding and the buffer showing the reader the
  prefix C8 alone, the decoder consumes the prefix instead of leaving it: the buffer is
  empty afterwards. When the next chunk arrives no data frame is extracted and the
  read stays pending.
\<close>
theorem partial_frame_lost:
  "pending prefix_at_head = [((50, 0), \<lparr>promise = 0, timeout = 100, start = 0\<rparr>)]
     \<and> contents (dbuffer prefix_at_head) = [0xC8]
     \<and> contents (dbuffer (state_after (processResponses prefix_at_head))) = []
     \<and> settled (state_after (on_data (state_after (processResponses prefix_at_head)) [77])) = []
     \<and> pending (state_after (on_data (state_after (processResponses prefix_at_head)) [77]))
          = [((50, 0), \<lparr>promise = 0, timeout = 100, start = 0\<rparr>)]
     \<and> contents (dbuffer (state_after
          (on_data (state_after (processResponses prefix_at_head)) [77]))) = []"
  by code_simp

text \<open>
  Claim C7, as stated, fails: a late data frame can be attributed to another request.
  \<open>read(50)\<close> times out and is rejected, \<open>read(52)\<close> is issued, and then
  the chunk \<open>C8 8A C8 8B\<close> arrives: the value 138 resolves the read of address 52.
\<close>
theorem late_frame_reattributed_counterexample:
  "pending read_after_timeout = [((52, 1), \<lparr>promise = 1, timeout = 100, start = 1\<rparr>)]
     \<and> settled read_after_timeout = [(0, Rejected (TimeoutError 50))]
     \<and> settled (state_after (on_data read_after_timeout [0xC8, 138, 0xC8, 139]))
           = [(0, Rejected (TimeoutError 50)), (1, Resolved 138)]
     \<and> pending (state_after (on_data read_after_timeout [0xC8, 138, 0xC8, 139])) = []"
  by code_simp

text \<open>
  Claim C7, amended. If the request is still pending when its timer expires, its
  promise is rejected with a timeout failure and its entry is removed from the pending
  map. After that, no sequence of events (chunks delivered, reads, timers, the socket
  closing, failing or connecting, the reconnect timer, \<open>disconnect\<close>) resolves the
  timed-out request: its promise stays rejected with the timeout failure. And whenever
  no request is pending, the handler of a chunk settles nothing.
\<close>
theorem timeout_rejects_and_removes:
  assumes "drv_wf d"
    and "(rid, p, addr, tmo) \<in> set (timers d)"
    and "(rid, e) \<in> set (pending d)"
    and "promise e = p"
  shows "(let d2 = timer_fires (rid, p, addr, tmo) d in
     pending d2 = AList.delete rid (pending d)
     \<and> rid \<notin> fst ` set (pending d2)
     \<and> settled d2 = settled d @ [(p, Rejected (TimeoutError addr))]
     \<and> promise_state d2 p = Some (Rejected (TimeoutError addr))
     \<and> (\<forall>evs v. (p, Resolved v) \<notin> set (settled (run evs d2)))
     \<and> (\<forall>evs. promise_state (run evs d2) p = Some (Rejected (TimeoutError addr)))
     \<and> (\<forall>evs data. pending (run evs d2) = [] \<longrightarrow>
          settled (state_after (on_data (run evs d2) data)) = settled (run evs d2)
          \<and> pending (state_after (on_data (run evs d2) data)) = []))"
proof -
  define d2 where "d2 = timer_fires (rid, p, addr, tmo) d"
  note D = drv_wfD [OF assms(1)]
  have rid: "rid \<in> fst ` set (pending d)"
    using assms(3) by (force simp: image_iff)
  have d2: "d2 = d\<lparr>timers := remove1 (rid, p, addr, tmo) (timers d),
      pending := AList.delete rid (pending d),
      settled := settled d @ [(p, Rejected (TimeoutError addr))]\<rparr>"
    using rid by (simp add: d2_def timer_fires_def timeout_callback_def)
  have 1: "pending d2 = AList.delete rid (pending d)" by (simp add: d2)
  have 2: "rid \<notin> fst ` set (pending d2)"
    by (auto simp: 1 AList.delete_eq)
  have 3: "settled d2 = settled d @ [(p, Rejected (TimeoutError addr))]" by (simp add: d2)
  have unsettled: "p \<notin> fst ` set (settled d)"
    using D(5) [OF assms(3)] assms(4) by simp
  then have "map_of (settled d) p = None" by (simp add: map_of_eq_None_iff)
  then have 4: "promise_state d2 p = Some (Rejected (TimeoutError addr))"
    by (simp add: promise_state_def 3 map_add_Some_iff)
  have gone: "\<forall>x \<in> set (pending d2). promise (snd x) \<noteq> p"
  proof
    fix x assume x: "x \<in> set (pending d2)"
    show "promise (snd x) \<noteq> p"
    proof
      assume px: "promise (snd x) = p"
      have xin: "x \<in> set (pending d)" and xr: "fst x \<noteq> rid"
        using x by (auto simp: 1 AList.delete_eq)
      have "fst x = rid"
        using D(8) [OF assms(2) xin] px by simp
      then show False using xr by simp
    qed
  qed
  have older: "p < next_promise d2"
    using D(4) [OF assms(3)] assms(4) by (simp add: d2)
  have fresh: "\<forall>v. (p, Resolved v) \<notin> set (settled d2)"
    using unsettled by (force simp: 3 image_iff)
  have 5: "(p, Resolved v) \<notin> set (settled (run evs d2))" for evs v
    using older gone fresh by (rule run_never_resolves)
  have 6: "promise_state (run evs d2) p = Some (Rejected (TimeoutError addr))" for evs
    using 4 by (rule run_promise_state_stays)
  have 7: "pending (run evs d2) = [] \<longrightarrow>
          settled (state_after (on_data (run evs d2) data)) = settled (run evs d2)
          \<and> pending (state_after (on_data (run evs d2) data)) = []" for evs data
    using on_data_no_pending by blast
  show ?thesis
    unfolding Let_def d2_def [symmetric] using 1 2 3 4 5 6 7 by blast
qed

theorem timeout_rejects_and_removes_witness:
  "drv_wf one_read
     \<and> ((50, 0), 0, 50, 100) \<in> set (timers one_read)
     \<and> ((50, 0), \<lparr>promise = 0, timeout = 100, start = 0\<rparr>) \<in> set (pending one_read)
     \<and> pending (timer_fires ((50, 0), 0, 50, 100) one_read) = []
     \<and> settled (timer_fires ((50, 0), 0, 50, 100) one_read) = [(0, Rejected (TimeoutError 50))]
     \<and> promise_state (timer_fires ((50, 0), 0, 50, 100) one_read) 0
          = Some (Rejected (TimeoutError 50))
     \<and> settled (run [Data [0xC8, 0xC8], Read 52 100 1 1, Data [0xC8, 0x4D]]
          (timer_fires ((50, 0), 0, 50, 100) one_read))
          = [(0, Rejected (TimeoutError 50)), (1, Resolved 200)]
     \<and> (0, Resolved 200)
          \<notin> set (settled (run [Data [0xC8, 0xC8], Read 52 100 1 1, Data [0xC8, 0x4D]]
                (timer_fires ((50, 0), 0, 50, 100) one_read)))
     \<and> promise_state (run [Data [0xC8, 0xC8], Read 52 100 1 1, Data [0xC8, 0x4D]]
          (timer_fires ((50, 0), 0, 50, 100) one_read)) 0 = Some (Rejected (TimeoutError 50))
     \<and> settled (state_after
          (on_data (timer_fires ((50, 0), 0, 50, 100) one_read) [0xC8, 138, 0xC8, 139]))
          = [(0, Rejected (TimeoutError 50))]"
proof -
  let ?t = "((50, 0), 0, 50, 100) :: requestId \<times> nat \<times> int \<times> nat"
  let ?evs = "[Data [0xC8, 0xC8], Read 52 100 1 1, Data [0xC8, 0x4D]]"
  have t: "?t \<in> set (timers one_read)" by code_simp
  have p: "((50, 0), \<lparr>promise = 0, timeout = 100, start = 0\<rparr>) \<in> set (pending one_read)"
    by code_simp
  have e: "promise \<lparr>promise = 0, timeout = 100, start = 0\<rparr> = 0" by simp
  have a: "pending (timer_fires ?t one_read) = []" by code_simp
  have b: "settled (timer_fires ?t one_read) = [(0, Rejected (TimeoutError 50))]" by code_simp
  have c: "settled (run ?evs (timer_fires ?t one_read))
      = [(0, Rejected (TimeoutError 50)), (1, Resolved 200)]" by code_simp
  have f: "settled (state_after (on_data (timer_fires ?t one_read) [0xC8, 138, 0xC8, 139]))
      = [(0, Rejected (TimeoutError 50))]" by code_simp
  note th = timeout_rejects_and_removes [OF drv_wf_one_read t p e, unfolded Let_def]
  have g: "(0, Resolved 200) \<notin> set (settled (run ?evs (timer_fires ?t one_read)))"
    using th by blast
  have h: "promise_state (run ?evs (timer_fires ?t one_read)) 0
      = Some (Rejected (TimeoutError 50))"
    using th by blast
  have i: "promise_state (timer_fires ?t one_read) 0 = Some (Rejected (TimeoutError 50))"
    using th by blast
  show ?thesis
    using drv_wf_one_read t p a b c f g h i by blast
qed




text \<open>
  Claim C9, as stated, fails: a second \<open>read\<close> issued while the first is outstanding
  is not queued. Both requests are pending at once and both commands have been written.
\<close>
theorem two_reads_outstanding_counterexample:
  "pending two_reads = [((50, 0), \<lparr>promise = 0, timeout = 100, start = 0\<rparr>),
                        ((52, 1), \<lparr>promise = 1, timeout = 100, start = 1\<rparr>)]
     \<and> settled two_reads = []
     \<and> written two_reads = [[0x14, 50, 0, 0xD9], [0x14, 52, 0, 0xDF]]"
  by code_simp

text \<open>
  Claim C9, amended. \<open>read\<close> does not queue: on a connected driver, a read whose
  request id is not pending adds its entry to the pending map at once, behind the
  entries already there, writes its command and arms its timer, whether or not other
  requests are outstanding.
\<close>
theorem read_adds_pending_at_once:
  assumes "socket_readable d"
    and "(addr, now) \<notin> fst ` set (pending d)"
  shows "fst (read d addr tmo now now') = next_promise d
     \<and> pending (snd (read d addr tmo now now'))
          = pending d @ [((addr, now), \<lparr>promise = next_promise d, timeout = tmo, start = now'\<rparr>)]
     \<and> length (pending (snd (read d addr tmo now now'))) = length (pending d) + 1
     \<and> written (snd (read d addr tmo now now'))
          = written d @ [buildCommand CMD_READ_RAM addr 0]
     \<and> timers (snd (read d addr tmo now now'))
          = timers d @ [((addr, now), next_promise d, addr, tmo)]
     \<and> settled (snd (read d addr tmo now now')) = settled d"
  using assms by (simp add: read_connected update_absent)

theorem read_adds_pending_at_once_witness:
  "socket_readable one_read
     \<and> (52, 1) \<notin> fst ` set (pending one_read)
     \<and> length (pending one_read) = 1
     \<and> length (pending (snd (read one_read 52 100 1 1))) = 2
     \<and> settled (snd (read one_read 52 100 1 1)) = []"
proof -
  have r: "socket_readable one_read" by code_simp
  have k: "(52, 1) \<notin> fst ` set (pending one_read)" by code_simp
  have l: "length (pending one_read) = 1" by code_simp
  have s: "settled one_read = []" by code_simp
  show ?thesis
    using read_adds_pending_at_once [OF r k, of 100 1] r k by (simp add: l s)
qed

section \<open>The same two facts for pli-driver.js\<close>

lemma close1_leaves_pending:
  "pendingReads (on_close1 d) = pendingReads d \<and> settled1 (on_close1 d) = settled1 d
     \<and> timers1 (on_close1 d) = timers1 d \<and> \<not> isConnected (on_close1 d)"
  by (simp add: on_close1_def)

lemma read1_adds_pending_at_once:
  assumes "isConnected d" and "ident \<notin> fst ` set (pendingReads d)"
  shows "pendingReads (snd (read1 d addr tmo ident))
           = pendingReads d @ [(ident, \<lparr>promise1 = next_promise1 d, timeout1 = tmo\<rparr>)]
         \<and> written1 (snd (read1 d addr tmo ident))
           = written1 d @ [buildCommand CMD_READ_RAM addr 0]
         \<and> settled1 (snd (read1 d addr tmo ident)) = settled1 d"
  using assms by (simp add: read1_def Let_def update_absent)

lemma timeout_callback1_rejects:
  assumes "ident \<in> fst ` set (pendingReads d)"
  shows "pendingReads (timeout_callback1 (ident, p, addr, tmo) d)
           = AList.delete ident (pendingReads d)
         \<and> settled1 (timeout_callback1 (ident, p, addr, tmo) d)
           = settled1 d @ [(p, Rejected (TimeoutError addr))]"
  using assms by (simp add: timeout_callback1_def)

end
